theory Spec2Isabelle
  imports Main "HOL-Library.Word" "HOL-Library.Multiset"
begin

section \<open>JavaScript strings and the two library calls the pipeline uses\<close>

text \<open>
  A JavaScript string is a sequence of 16-bit code units. The function \<open>utf16\<close> writes
  an ASCII literal as such a sequence; it is used for concrete inputs only.
\<close>

type_synonym jsstring = "16 word list"

definition utf16 :: "string \<Rightarrow> jsstring" where
  "utf16 cs = map (\<lambda>c. of_nat (of_char c)) cs"

definition newline :: "16 word" where
  "newline = 0x0A"

definition at_sign :: "16 word" where
  "at_sign = 0x40"

text \<open>
  \<^verbatim>\<open>s.split(sep)\<close> for a separator of one code unit, which is what both call sites
  pass (\<^verbatim>\<open>'\n'\<close> and \<^verbatim>\<open>'@'\<close>). The empty string splits into one empty piece.
\<close>

fun js_split :: "16 word \<Rightarrow> jsstring \<Rightarrow> jsstring list" where
  "js_split sep [] = [[]]"
| "js_split sep (c # cs) =
     (if c = sep then [] # js_split sep cs
      else (case js_split sep cs of
              [] \<Rightarrow> [[c]]
            | piece # pieces \<Rightarrow> (c # piece) # pieces))"

text \<open>
  \<^verbatim>\<open>a[i]\<close> on an array: \<^verbatim>\<open>undefined\<close> (here \<open>None\<close>) when the index is out of range.
\<close>

definition js_index :: "'a list \<Rightarrow> nat \<Rightarrow> 'a option" where
  "js_index xs i = (if i < length xs then Some (xs ! i) else None)"

text \<open>
  The code units that \<^verbatim>\<open>String.prototype.trim\<close> strips: ECMAScript's WhiteSpace and
  LineTerminator productions.
\<close>

definition isWhiteSpace :: "16 word \<Rightarrow> bool" where
  "isWhiteSpace c \<longleftrightarrow>
     c = 0x0009 \<or> c = 0x000A \<or> c = 0x000B \<or> c = 0x000C \<or> c = 0x000D \<or> c = 0x0020 \<or>
     c = 0x00A0 \<or> c = 0x1680 \<or> (0x2000 \<le> c \<and> c \<le> 0x200A) \<or> c = 0x2028 \<or>
     c = 0x2029 \<or> c = 0x202F \<or> c = 0x205F \<or> c = 0x3000 \<or> c = 0xFEFF"

definition trim :: "jsstring \<Rightarrow> jsstring" where
  "trim s = rev (dropWhile isWhiteSpace (rev (dropWhile isWhiteSpace s)))"

text \<open>A string used as a condition is true when it is not empty.\<close>

definition truthy :: "jsstring \<Rightarrow> bool" where
  "truthy s \<longleftrightarrow> s \<noteq> []"

text \<open>The domain of an address, as the loop takes it: \<^verbatim>\<open>email.split('@')[1]\<close>.\<close>

definition domain_of :: "jsstring \<Rightarrow> jsstring option" where
  "domain_of e = js_index (js_split at_sign e) 1"

section \<open>The data model\<close>

text \<open>
  The result for one address. The type is declared in \<^verbatim>\<open>../types\<close>; its fields are
  those of the three object literals that the loop pushes.
\<close>

record ValidationResult =
  email :: jsstring
  formatValid :: bool
  domainExists :: bool
  mxRecords :: bool
  spf :: bool
  dkim :: bool
  dmarc :: bool
  smtp :: bool
  blacklisted :: bool

text \<open>The state of the component: the text area, the table and the in-flight flag.\<close>

record component =
  emails :: jsstring
  results :: "ValidationResult list"
  isValidating :: bool

section \<open>The injected checks and the network\<close>

text \<open>
  Modelled from the spec: the module \<^verbatim>\<open>../utils/validators\<close> that the component
  imports is not among the sources, so its eight functions are a parameter of the
  model, with the contract the spec gives them. The format check is called
  synchronously and is a total function of the address. Each of the seven asynchronous
  checks receives the domain (which is \<open>None\<close> when the caller passes \<^verbatim>\<open>undefined\<close>),
  reads and changes the outside world \<open>'w\<close>, and resolves to a boolean: the checks fail
  closed, so a promise is never rejected.
\<close>

type_synonym 'w check = "jsstring option \<Rightarrow> 'w \<Rightarrow> bool \<times> 'w"

record 'w validators =
  validateEmailFormat :: "jsstring \<Rightarrow> bool"
  checkDomainExists :: "'w check"
  checkMXRecords :: "'w check"
  checkSPF :: "'w check"
  checkDKIM :: "'w check"
  checkDMARC :: "'w check"
  checkSMTP :: "'w check"
  checkBlacklists :: "'w check"

datatype probe = DomainExists | MXRecords | SPF | DKIM | DMARC | SMTP | Blacklists

fun probe_fn :: "'w validators \<Rightarrow> probe \<Rightarrow> 'w check" where
  "probe_fn V DomainExists = checkDomainExists V"
| "probe_fn V MXRecords = checkMXRecords V"
| "probe_fn V SPF = checkSPF V"
| "probe_fn V DKIM = checkDKIM V"
| "probe_fn V DMARC = checkDMARC V"
| "probe_fn V SMTP = checkSMTP V"
| "probe_fn V Blacklists = checkBlacklists V"

text \<open>
  The network state is the outside world together with the record of every call made
  to an asynchronous check: which check, with which argument, and what it resolved to.
\<close>

type_synonym call = "probe \<times> jsstring option \<times> bool"

record 'w net =
  world :: 'w
  calls :: "call list"

definition invoke :: "'w validators \<Rightarrow> probe \<Rightarrow> jsstring option \<Rightarrow> 'w net \<Rightarrow> bool \<times> 'w net" where
  "invoke V p d s =
     (case probe_fn V p d (world s) of
        (b, w) \<Rightarrow> (b, \<lparr>world = w, calls = calls s @ [(p, d, b)]\<rparr>))"

section \<open>Promise.all\<close>

text \<open>
  \<^verbatim>\<open>Promise.all\<close> waits until every promise of the array has settled and resolves to
  the array of their values, each at the index of its promise, whatever the order in
  which they settled. The six calls are made in the order of the array; what a call
  does to the world and to the record of calls is taken as one step, at the time its
  promise settles. The tasks still pending are kept with their indices.
  Which pending task settles next is not decided by the program: the list \<open>ks\<close> is the
  scheduler's sequence of choices, each taken modulo the number of pending tasks, and
  the first pending task is taken once the list is used up. Every order of completion
  is the run of some such list.
\<close>

definition pick :: "nat list \<Rightarrow> nat \<Rightarrow> nat" where
  "pick ks n = (case ks of [] \<Rightarrow> 0 | k # _ \<Rightarrow> k mod n)"

function settle :: "nat list \<Rightarrow> (nat \<times> ('s \<Rightarrow> bool \<times> 's)) list \<Rightarrow> bool list \<Rightarrow> 's \<Rightarrow> bool list \<times> 's" where
  "settle ks pending res s =
     (if pending = [] then (res, s)
      else (let k = pick ks (length pending) in
            case pending ! k of (i, t) \<Rightarrow>
            case t s of (b, s') \<Rightarrow>
              settle (tl ks) (take k pending @ drop (Suc k) pending) (res[i := b]) s'))"
  by pat_completeness auto
termination
proof (relation "measure (\<lambda>(ks, pending, res, s). length pending)")
  show "wf (measure (\<lambda>(ks, pending, res, s). length pending))"
    by simp
next
  fix ks :: "nat list" and pending :: "(nat \<times> ('s \<Rightarrow> bool \<times> 's)) list"
    and res :: "bool list" and s :: 's and k x1 x2 y1 y2
  assume "pending \<noteq> []" and k: "k = pick ks (length pending)"
  then have "k < length pending"
    by (simp add: pick_def split: list.splits)
  then show "((tl ks, take k pending @ drop (Suc k) pending, res[x1 := y1], y2),
              (ks, pending, res, s)) \<in> measure (\<lambda>(ks, pending, res, s). length pending)"
    by simp
qed

definition promise_all :: "nat list \<Rightarrow> ('s \<Rightarrow> bool \<times> 's) list \<Rightarrow> 's \<Rightarrow> bool list \<times> 's" where
  "promise_all ks tasks s =
     settle ks (zip [0..<length tasks] tasks) (replicate (length tasks) False) s"

section \<open>validateEmails\<close>

text \<open>The body of the loop: one address.\<close>

definition validateEmails_body ::
  "'w validators \<Rightarrow> nat list \<Rightarrow> jsstring \<Rightarrow> 'w net \<Rightarrow> ValidationResult \<times> 'w net" where
  "validateEmails_body V ks e s =
     (let domain = domain_of e;
          fv = validateEmailFormat V e
      in if fv then
           (case invoke V DomainExists domain s of (de, s1) \<Rightarrow>
              if \<not> de then
                (\<lparr>email = e, formatValid = True, domainExists = False, mxRecords = False,
                  spf = False, dkim = False, dmarc = False, smtp = False,
                  blacklisted = False\<rparr>, s1)
              else
                (case promise_all ks
                        [invoke V MXRecords domain, invoke V SPF domain,
                         invoke V DKIM domain, invoke V DMARC domain,
                         invoke V SMTP domain, invoke V Blacklists domain] s1 of
                   (rs, s2) \<Rightarrow>
                     (\<lparr>email = e, formatValid = fv, domainExists = de, mxRecords = rs ! 0,
                       spf = rs ! 1, dkim = rs ! 2, dmarc = rs ! 3, smtp = rs ! 4,
                       blacklisted = rs ! 5\<rparr>, s2)))
         else
           (\<lparr>email = e, formatValid = fv, domainExists = False, mxRecords = False,
             spf = False, dkim = False, dmarc = False, smtp = False,
             blacklisted = False\<rparr>, s))"

text \<open>
  The \<^verbatim>\<open>for\<close> loop over \<^verbatim>\<open>emailList\<close>, pushing onto \<^verbatim>\<open>validationResults\<close>. The
  scheduler's choices come one list per address.
\<close>

fun validateEmails_loop ::
  "'w validators \<Rightarrow> nat list list \<Rightarrow> jsstring list \<Rightarrow> ValidationResult list \<Rightarrow> 'w net
     \<Rightarrow> ValidationResult list \<times> 'w net" where
  "validateEmails_loop V sch [] validationResults s = (validationResults, s)"
| "validateEmails_loop V sch (e # emailList) validationResults s =
     (case validateEmails_body V (case sch of [] \<Rightarrow> [] | ks # _ \<Rightarrow> ks) e s of
        (r, s') \<Rightarrow> validateEmails_loop V (tl sch) emailList (validationResults @ [r]) s')"

definition validateEmails ::
  "'w validators \<Rightarrow> nat list list \<Rightarrow> component \<Rightarrow> 'w net \<Rightarrow> component \<times> 'w net" where
  "validateEmails V sch c s =
     (let c1 = c\<lparr>isValidating := True\<rparr>;
          emailList = filter (\<lambda>e. truthy (trim e)) (js_split newline (emails c1))
      in case validateEmails_loop V sch emailList [] s of
           (validationResults, s') \<Rightarrow>
             (c1\<lparr>results := validationResults, isValidating := False\<rparr>, s'))"

section \<open>Notions the properties are stated with\<close>

text \<open>The tasks of a list run one after the other, in the order of the list.\<close>

fun run_in_order :: "(nat \<times> ('s \<Rightarrow> bool \<times> 's)) list \<Rightarrow> bool list \<Rightarrow> 's \<Rightarrow> bool list \<times> 's" where
  "run_in_order [] res s = (res, s)"
| "run_in_order ((i, t) # ps) res s =
     (case t s of (b, s') \<Rightarrow> run_in_order ps (res[i := b]) s')"

text \<open>
  Checks are stable when what each resolves to depends on its argument only, not on
  the state of the world at the time of the call.
\<close>

definition stable :: "'w validators \<Rightarrow> bool" where
  "stable V \<longleftrightarrow> (\<forall>p d w w'. fst (probe_fn V p d w) = fst (probe_fn V p d w'))"

text \<open>A blank line: empty, or made of white space only.\<close>

definition blank :: "jsstring \<Rightarrow> bool" where
  "blank l \<longleftrightarrow> list_all isWhiteSpace l"

text \<open>The substring after the first occurrence of a code unit, if it occurs.\<close>

definition after_first :: "16 word \<Rightarrow> jsstring \<Rightarrow> jsstring option" where
  "after_first sep s =
     (case dropWhile (\<lambda>c. c \<noteq> sep) s of [] \<Rightarrow> None | _ # rest \<Rightarrow> Some rest)"

text \<open>
  The checks of a list applied one after the other to the same domain, each to the
  world the one before left: the calls they make, with what each resolved to, and the
  world after the last.
\<close>

fun probe_run :: "'w validators \<Rightarrow> jsstring option \<Rightarrow> probe list \<Rightarrow> 'w \<Rightarrow> call list \<times> 'w" where
  "probe_run V d [] w = ([], w)"
| "probe_run V d (p # ps) w =
     (case probe_fn V p d w of
        (b, w1) \<Rightarrow> (case probe_run V d ps w1 of (cs, w2) \<Rightarrow> ((p, d, b) # cs, w2)))"

text \<open>
  Modelled from the spec: the format check is part of the module that is not among the
  sources. Its contract, as far as the domain extraction relies on it: an address it
  accepts has exactly one \<^verbatim>\<open>@\<close>.
\<close>

definition format_contract :: "'w validators \<Rightarrow> bool" where
  "format_contract V \<longleftrightarrow> (\<forall>a. validateEmailFormat V a \<longrightarrow> count_list a at_sign = 1)"

text \<open>
  Test doubles. The stub accepts an address that has an \<^verbatim>\<open>@\<close>, knows the one domain
  \<^verbatim>\<open>example.com\<close>, and answers each further check with a constant. The world counts the
  round trips. The second double answers the SMTP check from the
  state of the world, so its answer depends on when the check settles.
\<close>

definition stub_validators :: "nat validators" where
  "stub_validators =
     \<lparr>validateEmailFormat = (\<lambda>e. at_sign \<in> set e),
      checkDomainExists = (\<lambda>d w. (d = Some (utf16 ''example.com''), Suc w)),
      checkMXRecords = (\<lambda>d w. (True, Suc w)),
      checkSPF = (\<lambda>d w. (False, Suc w)),
      checkDKIM = (\<lambda>d w. (True, Suc w)),
      checkDMARC = (\<lambda>d w. (False, Suc w)),
      checkSMTP = (\<lambda>d w. (True, Suc w)),
      checkBlacklists = (\<lambda>d w. (False, Suc w))\<rparr>"

definition flaky_validators :: "nat validators" where
  "flaky_validators = stub_validators\<lparr>checkSMTP := (\<lambda>d w. (even w, Suc w))\<rparr>"

definition net0 :: "nat net" where
  "net0 = \<lparr>world = 0, calls = []\<rparr>"

text \<open>
  A format check that accepts the strings with exactly one \<^verbatim>\<open>@\<close>, with the stub's
  other checks.
\<close>

definition strict_validators :: "nat validators" where
  "strict_validators =
     stub_validators\<lparr>validateEmailFormat := (\<lambda>e. count_list e at_sign = 1)\<rparr>"

text \<open>A format check that accepts every string, with the stub's other checks.\<close>

definition lenient_validators :: "nat validators" where
  "lenient_validators = stub_validators\<lparr>validateEmailFormat := (\<lambda>e. True)\<rparr>"

text \<open>
  Inputs: three addresses on three lines (one malformed, one of the known domain, one
  of an unknown domain); two addresses among blank lines; one address with a space on
  each side.
\<close>

definition three_lines :: component where
  "three_lines =
     \<lparr>emails = utf16 ''bad-address'' @ newline # utf16 ''user@example.com'' @
                newline # utf16 ''user@nonexistent-domain-xyz.test'',
      results = [], isValidating = False\<rparr>"

definition with_blank_lines :: component where
  "with_blank_lines =
     \<lparr>emails = utf16 ''a@example.com'' @ newline # newline # utf16 ''  '' @
                newline # utf16 ''b@example.com'' @ [newline],
      results = [], isValidating = False\<rparr>"

definition padded_line :: component where
  "padded_line =
     \<lparr>emails = utf16 '' user@example.com '', results = [], isValidating = False\<rparr>"

section \<open>Promise.all runs every task once\<close>

lemma pick_less: "0 < n \<Longrightarrow> pick ks n < n"
  by (simp add: pick_def split: list.splits)

lemma settle_Nil: "settle ks [] res s = (res, s)"
  by (subst settle.simps) simp

lemma settle_step:
  assumes "pending \<noteq> []" and "pending ! pick ks (length pending) = (i, t)" and "t s = (b, s')"
  shows "settle ks pending res s =
           settle (tl ks) (take (pick ks (length pending)) pending @
                           drop (Suc (pick ks (length pending))) pending) (res[i := b]) s'"
  using assms by (subst settle.simps) (simp add: Let_def)

lemma settle_is_run:
  "\<exists>ps. mset ps = mset pending \<and> settle ks pending res s = run_in_order ps res s"
proof (induction ks pending res s rule: settle.induct)
  case (1 ks pending res s)
  show ?case
  proof (cases "pending = []")
    case True
    then have "settle ks pending res s = run_in_order [] res s"
      by (simp add: settle_Nil)
    with True show ?thesis by auto
  next
    case False
    define k where "k = pick ks (length pending)"
    obtain i t where it: "pending ! k = (i, t)" by (cases "pending ! k")
    obtain b s' where bs: "t s = (b, s')" by (cases "t s")
    define rest where "rest = take k pending @ drop (Suc k) pending"
    from False have klt: "k < length pending"
      by (simp add: k_def pick_less)
    have "\<exists>ps. mset ps = mset rest \<and>
            settle (tl ks) rest (res[i := b]) s' = run_in_order ps (res[i := b]) s'"
      unfolding rest_def
      by (rule "1.IH" [OF False k_def it [symmetric] bs [symmetric]])
    then obtain ps where ps: "mset ps = mset rest"
      and run: "settle (tl ks) rest (res[i := b]) s' = run_in_order ps (res[i := b]) s'"
      by blast
    have "pending = take k pending @ (i, t) # drop (Suc k) pending"
      using klt it by (metis id_take_nth_drop)
    then have "mset pending = add_mset (i, t) (mset rest)"
      unfolding rest_def by (metis mset.simps(2) mset_append union_mset_add_mset_right)
    with ps have m: "mset ((i, t) # ps) = mset pending" by simp
    have "settle ks pending res s = settle (tl ks) rest (res[i := b]) s'"
      unfolding rest_def k_def
      by (rule settle_step [OF False it [unfolded k_def] bs])
    also have "\<dots> = run_in_order ((i, t) # ps) res s"
      using run bs by simp
    finally show ?thesis using m by blast
  qed
qed

text \<open>
  Conversely, the scheduler can produce every order: the model leaves out no order of
  completion.
\<close>

lemma pick_Cons: "k < n \<Longrightarrow> pick (k # ks) n = k"
  by (simp add: pick_def)

lemma every_order_is_scheduled:
  assumes "mset ps = mset pending"
  shows "\<exists>ks. settle ks pending res s = run_in_order ps res s"
  using assms
proof (induction ps arbitrary: pending res s)
  case Nil
  then show ?case by (simp add: settle_Nil)
next
  case (Cons x ps)
  obtain i t where x: "x = (i, t)" by (cases x)
  obtain b s' where bs: "t s = (b, s')" by (cases "t s")
  from Cons.prems have "x \<in> set pending"
    by (metis list.set_intros(1) mset_eq_setD)
  then obtain k where k: "k < length pending" and pk: "pending ! k = x"
    by (auto simp: in_set_conv_nth)
  define rest where "rest = take k pending @ drop (Suc k) pending"
  have "pending = take k pending @ x # drop (Suc k) pending"
    using k pk by (metis id_take_nth_drop)
  then have "mset pending = add_mset x (mset rest)"
    unfolding rest_def by (metis mset.simps(2) mset_append union_mset_add_mset_right)
  with Cons.prems have "mset ps = mset rest" by simp
  then obtain ks where ks: "settle ks rest (res[i := b]) s' = run_in_order ps (res[i := b]) s'"
    using Cons.IH by blast
  from k have ne: "pending \<noteq> []" by auto
  have p: "pick (k # ks) (length pending) = k"
    using k by (rule pick_Cons)
  have pk': "pending ! pick (k # ks) (length pending) = (i, t)"
    using pk x p by simp
  have "settle (k # ks) pending res s = settle ks rest (res[i := b]) s'"
    using settle_step [OF ne pk' bs, of res]
    unfolding p rest_def by simp
  also have "\<dots> = run_in_order (x # ps) res s"
    using ks bs x by simp
  finally show ?case by blast
qed

lemma invoke_calls:
  "invoke V p d s = (b, s') \<Longrightarrow> calls s' = calls s @ [(p, d, b)]"
  by (auto simp: invoke_def split: prod.splits)

lemma invoke_fst:
  "fst (invoke V p d s) = fst (probe_fn V p d (world s))"
  by (simp add: invoke_def split: prod.splits)

lemma run_in_order_calls:
  assumes "distinct (map fst ps)"
    and "\<forall>(i, t) \<in> set ps. i < length res \<and> t = invoke V (pr i) d"
    and "run_in_order ps res s = (res', s')"
  shows "length res' = length res \<and>
         (\<forall>j. j \<notin> fst ` set ps \<longrightarrow> res' ! j = res ! j) \<and>
         (\<exists>log. calls s' = calls s @ log \<and>
                mset log = image_mset (\<lambda>(i, t). (pr i, d, res' ! i)) (mset ps))"
  using assms
proof (induction ps arbitrary: res s)
  case Nil
  then show ?case by simp
next
  case (Cons x ps)
  obtain i t where x: "x = (i, t)" by (cases x)
  obtain b s1 where bs: "t s = (b, s1)" by (cases "t s")
  from Cons.prems x have t: "t = invoke V (pr i) d" and i: "i < length res"
    and fresh: "i \<notin> fst ` set ps" and dist: "distinct (map fst ps)"
    by auto
  have run: "run_in_order ps (res[i := b]) s1 = (res', s')"
    using Cons.prems(3) x bs by simp
  have pre: "\<forall>(i', t') \<in> set ps. i' < length (res[i := b]) \<and> t' = invoke V (pr i') d"
    using Cons.prems(2) by auto
  from Cons.IH [OF dist pre run]
  obtain log where len: "length res' = length res"
    and keep: "\<forall>j. j \<notin> fst ` set ps \<longrightarrow> res' ! j = res[i := b] ! j"
    and log: "calls s' = calls s1 @ log"
    and m: "mset log = image_mset (\<lambda>(i, t). (pr i, d, res' ! i)) (mset ps)"
    by auto
  from keep fresh i have bi: "res' ! i = b" by simp
  have c1: "calls s1 = calls s @ [(pr i, d, b)]"
    using bs t by (simp add: invoke_calls)
  have "calls s' = calls s @ ((pr i, d, b) # log)"
    using log c1 by simp
  moreover have "mset ((pr i, d, b) # log) =
      image_mset (\<lambda>(i, t). (pr i, d, res' ! i)) (mset (x # ps))"
    using m bi x by simp
  moreover have "\<forall>j. j \<notin> fst ` set (x # ps) \<longrightarrow> res' ! j = res ! j"
    using keep x by auto
  ultimately show ?case using len by blast
qed

lemma run_in_order_outcome:
  assumes "distinct (map fst ps)"
    and "\<forall>(i, t) \<in> set ps. i < length res"
    and "run_in_order ps res s = (res', s')"
  shows "length res' = length res \<and>
         (\<forall>j. j \<notin> fst ` set ps \<longrightarrow> res' ! j = res ! j) \<and>
         (\<forall>(i, t) \<in> set ps. \<exists>s1. res' ! i = fst (t s1))"
  using assms
proof (induction ps arbitrary: res s)
  case Nil
  then show ?case by simp
next
  case (Cons x ps)
  obtain i t where x: "x = (i, t)" by (cases x)
  obtain b s1 where bs: "t s = (b, s1)" by (cases "t s")
  from Cons.prems x have i: "i < length res"
    and fresh: "i \<notin> fst ` set ps" and dist: "distinct (map fst ps)"
    by auto
  have run: "run_in_order ps (res[i := b]) s1 = (res', s')"
    using Cons.prems(3) x bs by simp
  have pre: "\<forall>(i', t') \<in> set ps. i' < length (res[i := b])"
    using Cons.prems(2) by auto
  from Cons.IH [OF dist pre run]
  have len: "length res' = length res"
    and keep: "\<forall>j. j \<notin> fst ` set ps \<longrightarrow> res' ! j = res[i := b] ! j"
    and out: "\<forall>(i, t) \<in> set ps. \<exists>s1. res' ! i = fst (t s1)"
    by auto
  from keep fresh i have "res' ! i = b" by simp
  with bs have "res' ! i = fst (t s)" by simp
  then have "\<exists>s1. res' ! i = fst (t s1)" ..
  with out x have "\<forall>(i, t) \<in> set (x # ps). \<exists>s1. res' ! i = fst (t s1)"
    by simp
  moreover have "\<forall>j. j \<notin> fst ` set (x # ps) \<longrightarrow> res' ! j = res ! j"
    using keep x by auto
  ultimately show ?case using len by blast
qed

lemma upt_6: "[0..<6] = [0, 1, 2, 3, 4, 5]"
  by (simp add: upt_rec)

lemma list_of_length_6:
  "length (rs :: 'a list) = 6 \<Longrightarrow> rs = [rs ! 0, rs ! 1, rs ! 2, rs ! 3, rs ! 4, rs ! 5]"
  by (rule nth_equalityI) (auto simp: nth_Cons' less_Suc_eq numeral_eq_Suc)

lemma promise_all_is_run:
  "\<exists>ps. mset ps = mset (zip [0..<length tasks] tasks) \<and>
        promise_all ks tasks s = run_in_order ps (replicate (length tasks) False) s"
  unfolding promise_all_def by (rule settle_is_run)

lemma fan_out_calls:
  assumes "promise_all ks [invoke V MXRecords d, invoke V SPF d, invoke V DKIM d,
             invoke V DMARC d, invoke V SMTP d, invoke V Blacklists d] s = (rs, s')"
  shows "length rs = 6 \<and>
         (\<exists>log. calls s' = calls s @ log \<and>
            mset log = {#(MXRecords, d, rs ! 0), (SPF, d, rs ! 1), (DKIM, d, rs ! 2),
                        (DMARC, d, rs ! 3), (SMTP, d, rs ! 4), (Blacklists, d, rs ! 5)#})"
proof -
  define tasks where "tasks = [invoke V MXRecords d, invoke V SPF d, invoke V DKIM d,
             invoke V DMARC d, invoke V SMTP d, invoke V Blacklists d]"
  define pr where "pr = (\<lambda>i. [MXRecords, SPF, DKIM, DMARC, SMTP, Blacklists] ! i)"
  define pending where "pending = zip [0..<length tasks] tasks"
  have pending: "pending = [(0, invoke V MXRecords d), (1, invoke V SPF d),
      (2, invoke V DKIM d), (3, invoke V DMARC d), (4, invoke V SMTP d),
      (5, invoke V Blacklists d)]"
    by (simp add: pending_def tasks_def upt_6)
  obtain ps where ps: "mset ps = mset pending"
    and run: "promise_all ks tasks s = run_in_order ps (replicate (length tasks) False) s"
    using promise_all_is_run [of tasks ks s] unfolding pending_def by blast
  have "promise_all ks tasks s = (rs, s')"
    using assms by (simp add: tasks_def)
  with run have r: "run_in_order ps (replicate (length tasks) False) s = (rs, s')"
    by simp
  have n: "length tasks = 6"
    by (simp add: tasks_def)
  have "mset (map fst ps) = mset (map fst pending)"
    using ps by (metis mset_map)
  then have "distinct (map fst ps) \<longleftrightarrow> distinct (map fst pending)"
    by (rule mset_eq_imp_distinct_iff)
  then have dist: "distinct (map fst ps)"
    by (simp add: pending)
  have set: "set ps = set pending"
    using ps by (rule mset_eq_setD)
  have pre: "\<forall>(i, t) \<in> set ps. i < length (replicate (length tasks) False) \<and>
      t = invoke V (pr i) d"
    unfolding set by (simp add: pending pr_def n)
  from run_in_order_calls [OF dist pre r]
  obtain log where len: "length rs = 6" and log: "calls s' = calls s @ log"
    and m: "mset log = image_mset (\<lambda>(i, t). (pr i, d, rs ! i)) (mset ps)"
    by (auto simp: n)
  have "mset log = {#(MXRecords, d, rs ! 0), (SPF, d, rs ! 1), (DKIM, d, rs ! 2),
                        (DMARC, d, rs ! 3), (SMTP, d, rs ! 4), (Blacklists, d, rs ! 5)#}"
    unfolding m ps by (simp add: pending pr_def)
  with len log show ?thesis by blast
qed

lemma fan_out_stable:
  assumes "stable V"
    and "promise_all ks [invoke V MXRecords d, invoke V SPF d, invoke V DKIM d,
             invoke V DMARC d, invoke V SMTP d, invoke V Blacklists d] s = (rs, s')"
  shows "rs = [fst (checkMXRecords V d w), fst (checkSPF V d w), fst (checkDKIM V d w),
               fst (checkDMARC V d w), fst (checkSMTP V d w), fst (checkBlacklists V d w)]"
proof -
  define tasks where "tasks = [invoke V MXRecords d, invoke V SPF d, invoke V DKIM d,
             invoke V DMARC d, invoke V SMTP d, invoke V Blacklists d]"
  define pending where "pending = zip [0..<length tasks] tasks"
  have pending: "pending = [(0, invoke V MXRecords d), (1, invoke V SPF d),
      (2, invoke V DKIM d), (3, invoke V DMARC d), (4, invoke V SMTP d),
      (5, invoke V Blacklists d)]"
    by (simp add: pending_def tasks_def upt_6)
  obtain ps where ps: "mset ps = mset pending"
    and run: "promise_all ks tasks s = run_in_order ps (replicate (length tasks) False) s"
    using promise_all_is_run [of tasks ks s] unfolding pending_def by blast
  have "promise_all ks tasks s = (rs, s')"
    using assms by (simp add: tasks_def)
  with run have r: "run_in_order ps (replicate (length tasks) False) s = (rs, s')"
    by simp
  have n: "length tasks = 6"
    by (simp add: tasks_def)
  have "mset (map fst ps) = mset (map fst pending)"
    using ps by (metis mset_map)
  then have "distinct (map fst ps) \<longleftrightarrow> distinct (map fst pending)"
    by (rule mset_eq_imp_distinct_iff)
  then have dist: "distinct (map fst ps)"
    by (simp add: pending)
  have set: "set ps = set pending"
    using ps by (rule mset_eq_setD)
  have pre: "\<forall>(i, t) \<in> set ps. i < length (replicate (length tasks) False)"
    unfolding set by (simp add: pending n)
  from run_in_order_outcome [OF dist pre r]
  have len: "length rs = 6" and out: "\<forall>(i, t) \<in> set pending. \<exists>s1. rs ! i = fst (t s1)"
    unfolding set by (auto simp: n)
  have st: "fst (invoke V p d s1) = fst (probe_fn V p d w)" for p s1
    using assms(1) unfolding invoke_fst stable_def by blast
  from out have "rs ! 0 = fst (checkMXRecords V d w)" "rs ! 1 = fst (checkSPF V d w)"
    "rs ! 2 = fst (checkDKIM V d w)" "rs ! 3 = fst (checkDMARC V d w)"
    "rs ! 4 = fst (checkSMTP V d w)" "rs ! 5 = fst (checkBlacklists V d w)"
    unfolding pending using st [of MXRecords] st [of SPF] st [of DKIM] st [of DMARC]
      st [of SMTP] st [of Blacklists] by auto
  with list_of_length_6 [OF len] show ?thesis by simp
qed

text \<open>
  The six calls as the checks themselves: a run of Promise.all over them is the six
  checks applied to the world one after the other in some order, and nothing else.
\<close>

lemma invoke_world:
  "invoke V p d s = (b, s') \<Longrightarrow> probe_fn V p d (world s) = (b, world s')"
  by (auto simp: invoke_def split: prod.splits)

lemma run_in_order_probe_run:
  assumes "distinct (map fst ps)"
    and "\<forall>(i, t) \<in> set ps. i < length res \<and> t = invoke V (pr i) d"
    and "run_in_order ps res s = (res', s')"
  shows "probe_run V d (map (\<lambda>(i, t). pr i) ps) (world s) =
           (map (\<lambda>(i, t). (pr i, d, res' ! i)) ps, world s') \<and>
         calls s' = calls s @ map (\<lambda>(i, t). (pr i, d, res' ! i)) ps \<and>
         length res' = length res \<and>
         (\<forall>j. j \<notin> fst ` set ps \<longrightarrow> res' ! j = res ! j)"
  using assms
proof (induction ps arbitrary: res s)
  case Nil
  then show ?case by simp
next
  case (Cons x ps)
  obtain i t where x: "x = (i, t)" by (cases x)
  obtain b s1 where bs: "t s = (b, s1)" by (cases "t s")
  from Cons.prems x have t: "t = invoke V (pr i) d" and i: "i < length res"
    and fresh: "i \<notin> fst ` set ps" and dist: "distinct (map fst ps)"
    by auto
  have run: "run_in_order ps (res[i := b]) s1 = (res', s')"
    using Cons.prems(3) x bs by simp
  have pre: "\<forall>(i', t') \<in> set ps. i' < length (res[i := b]) \<and> t' = invoke V (pr i') d"
    using Cons.prems(2) by auto
  from Cons.IH [OF dist pre run]
  have pr: "probe_run V d (map (\<lambda>(i, t). pr i) ps) (world s1) =
           (map (\<lambda>(i, t). (pr i, d, res' ! i)) ps, world s')"
    and log: "calls s' = calls s1 @ map (\<lambda>(i, t). (pr i, d, res' ! i)) ps"
    and len: "length res' = length res"
    and keep: "\<forall>j. j \<notin> fst ` set ps \<longrightarrow> res' ! j = res[i := b] ! j"
    by auto
  from keep fresh i have bi: "res' ! i = b" by simp
  have c1: "calls s1 = calls s @ [(pr i, d, b)]"
    using bs t by (simp add: invoke_calls)
  have w1: "probe_fn V (pr i) d (world s) = (b, world s1)"
    using bs t by (simp add: invoke_world)
  have "probe_run V d (map (\<lambda>(i, t). pr i) (x # ps)) (world s) =
           (map (\<lambda>(i, t). (pr i, d, res' ! i)) (x # ps), world s')"
    using pr w1 bi x by simp
  moreover have "calls s' = calls s @ map (\<lambda>(i, t). (pr i, d, res' ! i)) (x # ps)"
    using log c1 bi x by simp
  moreover have "\<forall>j. j \<notin> fst ` set (x # ps) \<longrightarrow> res' ! j = res ! j"
    using keep x by auto
  ultimately show ?case using len by blast
qed

lemma fan_out_pinned:
  assumes "promise_all ks [invoke V MXRecords d, invoke V SPF d, invoke V DKIM d,
             invoke V DMARC d, invoke V SMTP d, invoke V Blacklists d] s = (rs, s')"
  shows "\<exists>order. mset order = {#MXRecords, SPF, DKIM, DMARC, SMTP, Blacklists#} \<and>
           (case probe_run V d order (world s) of
              (cs, w') \<Rightarrow>
                world s' = w' \<and> calls s' = calls s @ cs \<and>
                mset cs = {#(MXRecords, d, rs ! 0), (SPF, d, rs ! 1), (DKIM, d, rs ! 2),
                            (DMARC, d, rs ! 3), (SMTP, d, rs ! 4), (Blacklists, d, rs ! 5)#})"
proof -
  define tasks where "tasks = [invoke V MXRecords d, invoke V SPF d, invoke V DKIM d,
             invoke V DMARC d, invoke V SMTP d, invoke V Blacklists d]"
  define pr where "pr = (\<lambda>i. [MXRecords, SPF, DKIM, DMARC, SMTP, Blacklists] ! i)"
  define pending where "pending = zip [0..<length tasks] tasks"
  have pending: "pending = [(0, invoke V MXRecords d), (1, invoke V SPF d),
      (2, invoke V DKIM d), (3, invoke V DMARC d), (4, invoke V SMTP d),
      (5, invoke V Blacklists d)]"
    by (simp add: pending_def tasks_def upt_6)
  obtain ps where ps: "mset ps = mset pending"
    and run: "promise_all ks tasks s = run_in_order ps (replicate (length tasks) False) s"
    using promise_all_is_run [of tasks ks s] unfolding pending_def by blast
  have "promise_all ks tasks s = (rs, s')"
    using assms by (simp add: tasks_def)
  with run have r: "run_in_order ps (replicate (length tasks) False) s = (rs, s')"
    by simp
  have n: "length tasks = 6"
    by (simp add: tasks_def)
  have "mset (map fst ps) = mset (map fst pending)"
    using ps by (metis mset_map)
  then have "distinct (map fst ps) \<longleftrightarrow> distinct (map fst pending)"
    by (rule mset_eq_imp_distinct_iff)
  then have dist: "distinct (map fst ps)"
    by (simp add: pending)
  have set: "set ps = set pending"
    using ps by (rule mset_eq_setD)
  have pre: "\<forall>(i, t) \<in> set ps. i < length (replicate (length tasks) False) \<and>
      t = invoke V (pr i) d"
    unfolding set by (simp add: pending pr_def n)
  define order where "order = map (\<lambda>(i, t). pr i) ps"
  define cs where "cs = map (\<lambda>(i, t). (pr i, d, rs ! i)) ps"
  from run_in_order_probe_run [OF dist pre r]
  have run': "probe_run V d order (world s) = (cs, world s')"
    and log: "calls s' = calls s @ cs"
    unfolding order_def cs_def by auto
  have "mset order = image_mset (\<lambda>(i, t). pr i) (mset ps)"
    unfolding order_def by simp
  then have mo: "mset order = {#MXRecords, SPF, DKIM, DMARC, SMTP, Blacklists#}"
    unfolding ps by (simp add: pending pr_def)
  have "mset cs = image_mset (\<lambda>(i, t). (pr i, d, rs ! i)) (mset ps)"
    unfolding cs_def by simp
  then have mc: "mset cs = {#(MXRecords, d, rs ! 0), (SPF, d, rs ! 1), (DKIM, d, rs ! 2),
                            (DMARC, d, rs ! 3), (SMTP, d, rs ! 4), (Blacklists, d, rs ! 5)#}"
    unfolding ps by (simp add: pending pr_def)
  from mo run' log mc show ?thesis
    by (intro exI [of _ order]) simp
qed

section \<open>Splitting and trimming\<close>

lemma js_split_takeWhile:
  "js_split sep s =
     takeWhile (\<lambda>c. c \<noteq> sep) s #
     (case dropWhile (\<lambda>c. c \<noteq> sep) s of [] \<Rightarrow> [] | _ # rest \<Rightarrow> js_split sep rest)"
  by (induction s) auto

lemma domain_of_eq:
  "domain_of e =
     (case dropWhile (\<lambda>c. c \<noteq> at_sign) e of
        [] \<Rightarrow> None
      | _ # rest \<Rightarrow> Some (takeWhile (\<lambda>c. c \<noteq> at_sign) rest))"
proof (cases "dropWhile (\<lambda>c. c \<noteq> at_sign) e")
  case Nil
  then have "js_split at_sign e = [takeWhile (\<lambda>c. c \<noteq> at_sign) e]"
    by (subst js_split_takeWhile) (simp del: dropWhile_eq_Nil_conv)
  with Nil show ?thesis
    by (simp add: domain_of_def js_index_def del: dropWhile_eq_Nil_conv)
next
  case (Cons a rest)
  obtain ws where "js_split at_sign rest = takeWhile (\<lambda>c. c \<noteq> at_sign) rest # ws"
    using js_split_takeWhile [of at_sign rest] by blast
  moreover have "js_split at_sign e = takeWhile (\<lambda>c. c \<noteq> at_sign) e # js_split at_sign rest"
    using Cons by (subst js_split_takeWhile) simp
  ultimately have "js_split at_sign e =
    takeWhile (\<lambda>c. c \<noteq> at_sign) e # takeWhile (\<lambda>c. c \<noteq> at_sign) rest # ws"
    by simp
  then show ?thesis using Cons
    by (simp add: domain_of_def js_index_def)
qed

lemma domain_of_after_first:
  "domain_of e = map_option (takeWhile (\<lambda>c. c \<noteq> at_sign)) (after_first at_sign e)"
  by (cases "dropWhile (\<lambda>c. c \<noteq> at_sign) e")
    (simp_all add: domain_of_eq after_first_def del: dropWhile_eq_Nil_conv)

lemma domain_of_None: "domain_of e = None \<longleftrightarrow> at_sign \<notin> set e"
proof (cases "dropWhile (\<lambda>c. c \<noteq> at_sign) e")
  case Nil
  then have "at_sign \<notin> set e"
    by (auto simp: dropWhile_eq_Nil_conv)
  with Nil show ?thesis
    by (simp add: domain_of_eq del: dropWhile_eq_Nil_conv)
next
  case (Cons a rest)
  then have "a = at_sign"
    using hd_dropWhile [of "\<lambda>c. c \<noteq> at_sign" e] by auto
  with Cons have "at_sign \<in> set (dropWhile (\<lambda>c. c \<noteq> at_sign) e)"
    by simp
  then have "at_sign \<in> set e"
    by (rule set_dropWhileD)
  with Cons show ?thesis
    by (simp add: domain_of_eq)
qed

lemma count_list_dropWhile:
  "count_list (dropWhile (\<lambda>c. c \<noteq> x) s) x = count_list s x"
  by (induction s) auto

lemma domain_of_one_at:
  assumes "count_list e at_sign \<le> 1"
  shows "domain_of e = after_first at_sign e"
proof (cases "dropWhile (\<lambda>c. c \<noteq> at_sign) e")
  case Nil
  then show ?thesis
    by (simp add: domain_of_eq after_first_def del: dropWhile_eq_Nil_conv)
next
  case (Cons a rest)
  then have "a = at_sign"
    using hd_dropWhile [of "\<lambda>c. c \<noteq> at_sign" e] by auto
  with Cons have "count_list e at_sign = Suc (count_list rest at_sign)"
    using count_list_dropWhile [of at_sign e] by simp
  with assms have "count_list rest at_sign = 0" by simp
  then have "at_sign \<notin> set rest"
    by (simp add: count_list_0_iff)
  then have "takeWhile (\<lambda>c. c \<noteq> at_sign) rest = rest"
    by (auto simp: takeWhile_eq_all_conv)
  with Cons show ?thesis by (simp add: domain_of_eq after_first_def)
qed

lemma domain_of_exactly_one_at:
  assumes "count_list e at_sign = 1"
  shows "domain_of e = after_first at_sign e \<and> after_first at_sign e \<noteq> None"
proof -
  from assms have "domain_of e = after_first at_sign e"
    by (simp add: domain_of_one_at)
  moreover from assms have "at_sign \<in> set e"
    by (metis count_list_0_iff zero_neq_one)
  then have "domain_of e \<noteq> None"
    by (simp add: domain_of_None)
  ultimately show ?thesis by simp
qed

lemma truthy_trim: "truthy (trim l) \<longleftrightarrow> \<not> blank l"
proof -
  have "dropWhile isWhiteSpace (rev (dropWhile isWhiteSpace l)) = [] \<longleftrightarrow>
        dropWhile isWhiteSpace l = []"
  proof (cases "dropWhile isWhiteSpace l")
    case Nil
    then show ?thesis by (simp del: dropWhile_eq_Nil_conv)
  next
    case (Cons a r)
    then have "\<not> isWhiteSpace a"
      using hd_dropWhile [of isWhiteSpace l] by auto
    moreover have "a \<in> set (rev (dropWhile isWhiteSpace l))"
      using Cons by simp
    ultimately have "dropWhile isWhiteSpace (rev (dropWhile isWhiteSpace l)) \<noteq> []"
      unfolding dropWhile_eq_Nil_conv by blast
    with Cons show ?thesis by simp
  qed
  then show ?thesis
    by (simp add: truthy_def trim_def blank_def list_all_iff)
qed

section \<open>One address\<close>

lemma body_format_invalid:
  assumes "\<not> validateEmailFormat V e"
  shows "validateEmails_body V ks e s =
           (\<lparr>email = e, formatValid = False, domainExists = False, mxRecords = False,
             spf = False, dkim = False, dmarc = False, smtp = False,
             blacklisted = False\<rparr>, s)"
  using assms by (simp add: validateEmails_body_def)

lemma body_no_domain:
  assumes "validateEmailFormat V e"
    and "checkDomainExists V (domain_of e) (world s) = (False, w)"
  shows "validateEmails_body V ks e s =
           (\<lparr>email = e, formatValid = True, domainExists = False, mxRecords = False,
             spf = False, dkim = False, dmarc = False, smtp = False,
             blacklisted = False\<rparr>,
            \<lparr>world = w, calls = calls s @ [(DomainExists, domain_of e, False)]\<rparr>)"
  using assms by (simp add: validateEmails_body_def invoke_def)

lemma body_fan_out:
  assumes "validateEmailFormat V e"
    and "checkDomainExists V (domain_of e) (world s) = (True, w)"
    and "validateEmails_body V ks e s = (r, s')"
  shows "email r = e \<and> formatValid r \<and> domainExists r \<and>
         (\<exists>log. calls s' = calls s @ (DomainExists, domain_of e, True) # log \<and>
            mset log = {#(MXRecords, domain_of e, mxRecords r), (SPF, domain_of e, spf r),
                        (DKIM, domain_of e, dkim r), (DMARC, domain_of e, dmarc r),
                        (SMTP, domain_of e, smtp r), (Blacklists, domain_of e, blacklisted r)#})"
proof -
  define d where "d = domain_of e"
  define s1 where "s1 = \<lparr>world = w, calls = calls s @ [(DomainExists, d, True)]\<rparr>"
  obtain rs s2 where pa: "promise_all ks [invoke V MXRecords d, invoke V SPF d,
      invoke V DKIM d, invoke V DMARC d, invoke V SMTP d, invoke V Blacklists d] s1 = (rs, s2)"
    by (cases "promise_all ks [invoke V MXRecords d, invoke V SPF d,
      invoke V DKIM d, invoke V DMARC d, invoke V SMTP d, invoke V Blacklists d] s1")
  have inv: "invoke V DomainExists d s = (True, s1)"
    using assms(2) by (simp add: invoke_def d_def s1_def)
  have "validateEmails_body V ks e s =
          (\<lparr>email = e, formatValid = True, domainExists = True, mxRecords = rs ! 0,
            spf = rs ! 1, dkim = rs ! 2, dmarc = rs ! 3, smtp = rs ! 4,
            blacklisted = rs ! 5\<rparr>, s2)"
    using assms(1) inv pa by (simp add: validateEmails_body_def d_def [symmetric])
  with assms(3) have r: "r = \<lparr>email = e, formatValid = True, domainExists = True,
      mxRecords = rs ! 0, spf = rs ! 1, dkim = rs ! 2, dmarc = rs ! 3, smtp = rs ! 4,
      blacklisted = rs ! 5\<rparr>" and s': "s' = s2"
    by simp_all
  from fan_out_calls [OF pa] obtain log where "calls s2 = calls s1 @ log"
    and "mset log = {#(MXRecords, d, rs ! 0), (SPF, d, rs ! 1), (DKIM, d, rs ! 2),
                      (DMARC, d, rs ! 3), (SMTP, d, rs ! 4), (Blacklists, d, rs ! 5)#}"
    by blast
  then show ?thesis
    unfolding r s' d_def [symmetric] by (simp add: s1_def)
qed

lemma body_email: "email (fst (validateEmails_body V ks e s)) = e"
  by (simp add: validateEmails_body_def Let_def split: prod.splits)

lemma body_formatValid: "formatValid (fst (validateEmails_body V ks e s)) = validateEmailFormat V e"
  by (simp add: validateEmails_body_def Let_def split: prod.splits)

lemma body_domainExists:
  "domainExists (fst (validateEmails_body V ks e s)) \<longleftrightarrow>
     validateEmailFormat V e \<and> fst (checkDomainExists V (domain_of e) (world s))"
  by (simp add: validateEmails_body_def Let_def invoke_def split: prod.splits)

lemma body_unchecked:
  assumes "\<not> formatValid (fst (validateEmails_body V ks e s)) \<or>
           \<not> domainExists (fst (validateEmails_body V ks e s))"
  shows "fst (validateEmails_body V ks e s) =
           \<lparr>email = e, formatValid = validateEmailFormat V e, domainExists = False,
             mxRecords = False, spf = False, dkim = False, dmarc = False, smtp = False,
             blacklisted = False\<rparr>"
  using assms by (auto simp: validateEmails_body_def Let_def split: prod.splits if_splits)

lemma body_log:
  "\<exists>log. calls (snd (validateEmails_body V ks e s)) = calls s @ log \<and>
     (\<forall>c \<in> set log. fst (snd c) = domain_of e) \<and>
     length log =
       (if \<not> validateEmailFormat V e then 0
        else if \<not> fst (checkDomainExists V (domain_of e) (world s)) then 1 else 7) \<and>
     (validateEmailFormat V e \<longrightarrow> (\<exists>b rest. log = (DomainExists, domain_of e, b) # rest))"
proof (cases "validateEmailFormat V e")
  case False
  then show ?thesis
    by (simp add: body_format_invalid)
next
  case True
  obtain de w where dw: "checkDomainExists V (domain_of e) (world s) = (de, w)"
    by (cases "checkDomainExists V (domain_of e) (world s)")
  show ?thesis
  proof (cases de)
    case False
    with True dw show ?thesis
      by (auto simp: body_no_domain)
  next
    case de: True
    obtain r s' where rs: "validateEmails_body V ks e s = (r, s')"
      by (cases "validateEmails_body V ks e s")
    from dw de have dt: "checkDomainExists V (domain_of e) (world s) = (True, w)"
      by simp
    from body_fan_out [OF True dt rs]
    obtain log where c: "calls s' = calls s @ (DomainExists, domain_of e, True) # log"
      and m: "mset log = {#(MXRecords, domain_of e, mxRecords r), (SPF, domain_of e, spf r),
                        (DKIM, domain_of e, dkim r), (DMARC, domain_of e, dmarc r),
                        (SMTP, domain_of e, smtp r), (Blacklists, domain_of e, blacklisted r)#}"
      by auto
    from m have "size (mset log) = 6" by simp
    then have len: "length log = 6" by simp
    from m have "set_mset (mset log) = {(MXRecords, domain_of e, mxRecords r),
        (SPF, domain_of e, spf r), (DKIM, domain_of e, dkim r), (DMARC, domain_of e, dmarc r),
        (SMTP, domain_of e, smtp r), (Blacklists, domain_of e, blacklisted r)}"
      by simp
    then have args: "\<forall>c \<in> set log. fst (snd c) = domain_of e"
      by auto
    from c len args True dw de rs show ?thesis
      by auto
  qed
qed

lemma body_stable:
  assumes "stable V"
  shows "fst (validateEmails_body V ks e s) = fst (validateEmails_body V ks' e s')"
proof (cases "validateEmailFormat V e")
  case False
  then show ?thesis
    by (simp add: body_format_invalid)
next
  case True
  define d where "d = domain_of e"
  obtain de w where dw: "checkDomainExists V d (world s) = (de, w)"
    by (cases "checkDomainExists V d (world s)")
  obtain de' w' where dw': "checkDomainExists V d (world s') = (de', w')"
    by (cases "checkDomainExists V d (world s')")
  have "fst (probe_fn V DomainExists d (world s)) = fst (probe_fn V DomainExists d (world s'))"
    using assms unfolding stable_def by blast
  with dw dw' have same: "de' = de" by simp
  show ?thesis
  proof (cases de)
    case False
    with True dw dw' same show ?thesis
      by (simp add: body_no_domain d_def)
  next
    case de: True
    define s1 where "s1 = \<lparr>world = w, calls = calls s @ [(DomainExists, d, True)]\<rparr>"
    define s1' where "s1' = \<lparr>world = w', calls = calls s' @ [(DomainExists, d, True)]\<rparr>"
    define tasks where "tasks = [invoke V MXRecords d, invoke V SPF d,
      invoke V DKIM d, invoke V DMARC d, invoke V SMTP d, invoke V Blacklists d]"
    obtain rs s2 where pa: "promise_all ks tasks s1 = (rs, s2)"
      by (cases "promise_all ks tasks s1")
    obtain rs' s2' where pa': "promise_all ks' tasks s1' = (rs', s2')"
      by (cases "promise_all ks' tasks s1'")
    have "rs = [fst (checkMXRecords V d w), fst (checkSPF V d w), fst (checkDKIM V d w),
               fst (checkDMARC V d w), fst (checkSMTP V d w), fst (checkBlacklists V d w)]"
      using fan_out_stable [OF assms pa [unfolded tasks_def]] .
    moreover have "rs' = [fst (checkMXRecords V d w), fst (checkSPF V d w), fst (checkDKIM V d w),
               fst (checkDMARC V d w), fst (checkSMTP V d w), fst (checkBlacklists V d w)]"
      using fan_out_stable [OF assms pa' [unfolded tasks_def]] .
    ultimately have eq: "rs' = rs" by simp
    have "invoke V DomainExists d s = (True, s1)"
      using dw de by (simp add: invoke_def s1_def)
    then have l: "fst (validateEmails_body V ks e s) =
          \<lparr>email = e, formatValid = True, domainExists = True, mxRecords = rs ! 0,
            spf = rs ! 1, dkim = rs ! 2, dmarc = rs ! 3, smtp = rs ! 4,
            blacklisted = rs ! 5\<rparr>"
      using True pa by (simp add: validateEmails_body_def d_def [symmetric] tasks_def)
    have "invoke V DomainExists d s' = (True, s1')"
      using dw' de same by (simp add: invoke_def s1'_def)
    then have "fst (validateEmails_body V ks' e s') =
          \<lparr>email = e, formatValid = True, domainExists = True, mxRecords = rs' ! 0,
            spf = rs' ! 1, dkim = rs' ! 2, dmarc = rs' ! 3, smtp = rs' ! 4,
            blacklisted = rs' ! 5\<rparr>"
      using True pa' by (simp add: validateEmails_body_def d_def [symmetric] tasks_def)
    with l eq show ?thesis by simp
  qed
qed

lemma body_pinned:
  assumes "validateEmailFormat V e"
    and "validateEmails_body V ks e s = (r, s')"
  shows "email r = e \<and> formatValid r \<and>
         domainExists r = fst (checkDomainExists V (domain_of e) (world s)) \<and>
         (\<exists>order.
            (if domainExists r then mset order = {#MXRecords, SPF, DKIM, DMARC, SMTP, Blacklists#}
             else order = []) \<and>
            (case probe_run V (domain_of e) order
                    (snd (checkDomainExists V (domain_of e) (world s))) of
               (cs, w') \<Rightarrow>
                 world s' = w' \<and>
                 calls s' = calls s @ (DomainExists, domain_of e, domainExists r) # cs \<and>
                 mset cs =
                   (if domainExists r then
                      {#(MXRecords, domain_of e, mxRecords r), (SPF, domain_of e, spf r),
                        (DKIM, domain_of e, dkim r), (DMARC, domain_of e, dmarc r),
                        (SMTP, domain_of e, smtp r), (Blacklists, domain_of e, blacklisted r)#}
                    else {#})))"
proof -
  define d where "d = domain_of e"
  obtain de w where dw: "checkDomainExists V d (world s) = (de, w)"
    by (cases "checkDomainExists V d (world s)")
  have fstc: "fst (checkDomainExists V d (world s)) = de"
    and sndc: "snd (checkDomainExists V d (world s)) = w"
    using dw by simp_all
  show ?thesis
  proof (cases de)
    case False
    have dw': "checkDomainExists V (domain_of e) (world s) = (False, w)"
      using dw False by (simp add: d_def)
    have "validateEmails_body V ks e s =
           (\<lparr>email = e, formatValid = True, domainExists = False, mxRecords = False,
             spf = False, dkim = False, dmarc = False, smtp = False,
             blacklisted = False\<rparr>,
            \<lparr>world = w, calls = calls s @ [(DomainExists, domain_of e, False)]\<rparr>)"
      using assms(1) dw' by (rule body_no_domain)
    with assms(2) have r: "r = \<lparr>email = e, formatValid = True, domainExists = False,
        mxRecords = False, spf = False, dkim = False, dmarc = False, smtp = False,
        blacklisted = False\<rparr>"
      and s': "s' = \<lparr>world = w, calls = calls s @ [(DomainExists, d, False)]\<rparr>"
      by (simp_all add: d_def)
    have a: "email r = e \<and> formatValid r \<and> domainExists r = fst (checkDomainExists V d (world s))"
      using False by (simp add: r fstc)
    have nd: "\<not> domainExists r"
      by (simp add: r)
    have "case probe_run V d [] (snd (checkDomainExists V d (world s))) of
               (cs, w') \<Rightarrow>
                 world s' = w' \<and>
                 calls s' = calls s @ (DomainExists, d, domainExists r) # cs \<and>
                 mset cs = {#}"
      by (simp add: sndc s' r)
    then have "\<exists>order.
            (if domainExists r then mset order = {#MXRecords, SPF, DKIM, DMARC, SMTP, Blacklists#}
             else order = []) \<and>
            (case probe_run V d order (snd (checkDomainExists V d (world s))) of
               (cs, w') \<Rightarrow>
                 world s' = w' \<and>
                 calls s' = calls s @ (DomainExists, d, domainExists r) # cs \<and>
                 mset cs =
                   (if domainExists r then
                      {#(MXRecords, d, mxRecords r), (SPF, d, spf r),
                        (DKIM, d, dkim r), (DMARC, d, dmarc r),
                        (SMTP, d, smtp r), (Blacklists, d, blacklisted r)#}
                    else {#}))"
      by (intro exI [of _ "[]"]) (simp only: nd if_False simp_thms)
    with a show ?thesis
      unfolding d_def [symmetric] by (intro conjI) (simp_all only: simp_thms)
  next
    case True
    define s1 where "s1 = \<lparr>world = w, calls = calls s @ [(DomainExists, d, True)]\<rparr>"
    obtain rs s2 where pa: "promise_all ks [invoke V MXRecords d, invoke V SPF d,
        invoke V DKIM d, invoke V DMARC d, invoke V SMTP d, invoke V Blacklists d] s1 = (rs, s2)"
      by (cases "promise_all ks [invoke V MXRecords d, invoke V SPF d,
        invoke V DKIM d, invoke V DMARC d, invoke V SMTP d, invoke V Blacklists d] s1")
    have inv: "invoke V DomainExists d s = (True, s1)"
      using dw True by (simp add: invoke_def s1_def)
    have "validateEmails_body V ks e s =
          (\<lparr>email = e, formatValid = True, domainExists = True, mxRecords = rs ! 0,
            spf = rs ! 1, dkim = rs ! 2, dmarc = rs ! 3, smtp = rs ! 4,
            blacklisted = rs ! 5\<rparr>, s2)"
      using assms(1) inv pa by (simp add: validateEmails_body_def d_def [symmetric])
    with assms(2) have r: "r = \<lparr>email = e, formatValid = True, domainExists = True,
        mxRecords = rs ! 0, spf = rs ! 1, dkim = rs ! 2, dmarc = rs ! 3, smtp = rs ! 4,
        blacklisted = rs ! 5\<rparr>" and s': "s' = s2"
      by simp_all
    from fan_out_pinned [OF pa] obtain order
      where oc: "mset order = {#MXRecords, SPF, DKIM, DMARC, SMTP, Blacklists#} \<and>
           (case probe_run V d order (world s1) of
              (cs, w') \<Rightarrow>
                world s2 = w' \<and> calls s2 = calls s1 @ cs \<and>
                mset cs = {#(MXRecords, d, rs ! 0), (SPF, d, rs ! 1), (DKIM, d, rs ! 2),
                            (DMARC, d, rs ! 3), (SMTP, d, rs ! 4), (Blacklists, d, rs ! 5)#})" ..
    from oc have mo: "mset order = {#MXRecords, SPF, DKIM, DMARC, SMTP, Blacklists#}"
      by (rule conjunct1)
    from oc have c: "case probe_run V d order (world s1) of
              (cs, w') \<Rightarrow>
                world s2 = w' \<and> calls s2 = calls s1 @ cs \<and>
                mset cs = {#(MXRecords, d, rs ! 0), (SPF, d, rs ! 1), (DKIM, d, rs ! 2),
                            (DMARC, d, rs ! 3), (SMTP, d, rs ! 4), (Blacklists, d, rs ! 5)#}"
      by (rule conjunct2)
    have a: "email r = e \<and> formatValid r \<and> domainExists r = fst (checkDomainExists V d (world s))"
      using True by (simp add: r fstc)
    have yd: "domainExists r"
      by (simp add: r)
    have w1: "world s1 = snd (checkDomainExists V d (world s))"
      by (simp add: s1_def sndc)
    have c1: "calls s1 @ cs = calls s @ (DomainExists, d, domainExists r) # cs" for cs
      by (simp add: s1_def r)
    have f: "mxRecords r = rs ! 0" "spf r = rs ! 1" "dkim r = rs ! 2" "dmarc r = rs ! 3"
      "smtp r = rs ! 4" "blacklisted r = rs ! 5"
      by (simp_all add: r)
    have "case probe_run V d order (snd (checkDomainExists V d (world s))) of
               (cs, w') \<Rightarrow>
                 world s' = w' \<and>
                 calls s' = calls s @ (DomainExists, d, domainExists r) # cs \<and>
                 mset cs =
                      {#(MXRecords, d, mxRecords r), (SPF, d, spf r),
                        (DKIM, d, dkim r), (DMARC, d, dmarc r),
                        (SMTP, d, smtp r), (Blacklists, d, blacklisted r)#}"
      using c unfolding w1 [symmetric] c1 [symmetric] f s' .
    with mo have "\<exists>order.
            (if domainExists r then mset order = {#MXRecords, SPF, DKIM, DMARC, SMTP, Blacklists#}
             else order = []) \<and>
            (case probe_run V d order (snd (checkDomainExists V d (world s))) of
               (cs, w') \<Rightarrow>
                 world s' = w' \<and>
                 calls s' = calls s @ (DomainExists, d, domainExists r) # cs \<and>
                 mset cs =
                   (if domainExists r then
                      {#(MXRecords, d, mxRecords r), (SPF, d, spf r),
                        (DKIM, d, dkim r), (DMARC, d, dmarc r),
                        (SMTP, d, smtp r), (Blacklists, d, blacklisted r)#}
                    else {#}))"
      by (intro exI [of _ order]) (simp only: yd if_True simp_thms)
    with a show ?thesis
      unfolding d_def [symmetric] by (intro conjI) (simp_all only: simp_thms)
  qed
qed

lemma body_pinned_calls:
  assumes "validateEmailFormat V e"
    and "validateEmails_body V ks e s = (r, s')"
    and "domain_of e = d"
  shows "domainExists r = fst (checkDomainExists V d (world s)) \<and>
         (\<exists>order.
            (if domainExists r then mset order = {#MXRecords, SPF, DKIM, DMARC, SMTP, Blacklists#}
             else order = []) \<and>
            (case probe_run V d order (snd (checkDomainExists V d (world s))) of
               (cs, w') \<Rightarrow>
                 world s' = w' \<and>
                 calls s' = calls s @ (DomainExists, d, domainExists r) # cs))"
proof -
  note bp = body_pinned [OF assms(1) assms(2), unfolded assms(3)]
  note de = bp [THEN conjunct2, THEN conjunct2, THEN conjunct1]
  note ex = bp [THEN conjunct2, THEN conjunct2, THEN conjunct2]
  from ex obtain order where
    o: "if domainExists r then mset order = {#MXRecords, SPF, DKIM, DMARC, SMTP, Blacklists#}
        else order = []"
    and c: "case probe_run V d order (snd (checkDomainExists V d (world s))) of
               (cs, w') \<Rightarrow>
                 world s' = w' \<and>
                 calls s' = calls s @ (DomainExists, d, domainExists r) # cs \<and>
                 mset cs =
                   (if domainExists r then
                      {#(MXRecords, d, mxRecords r), (SPF, d, spf r),
                        (DKIM, d, dkim r), (DMARC, d, dmarc r),
                        (SMTP, d, smtp r), (Blacklists, d, blacklisted r)#}
                    else {#})"
    by (elim exE conjE)
  obtain cs w' where run: "probe_run V d order (snd (checkDomainExists V d (world s))) = (cs, w')"
    by (cases "probe_run V d order (snd (checkDomainExists V d (world s)))")
  note c' = c [unfolded run prod.case]
  have "case probe_run V d order (snd (checkDomainExists V d (world s))) of
               (cs, w') \<Rightarrow>
                 world s' = w' \<and>
                 calls s' = calls s @ (DomainExists, d, domainExists r) # cs"
    unfolding run prod.case
    using c' [THEN conjunct1] c' [THEN conjunct2, THEN conjunct1] by (rule conjI)
  with o have "\<exists>order.
            (if domainExists r then mset order = {#MXRecords, SPF, DKIM, DMARC, SMTP, Blacklists#}
             else order = []) \<and>
            (case probe_run V d order (snd (checkDomainExists V d (world s))) of
               (cs, w') \<Rightarrow>
                 world s' = w' \<and>
                 calls s' = calls s @ (DomainExists, d, domainExists r) # cs)"
    by (intro exI [of _ order] conjI)
  with de show ?thesis by (rule conjI)
qed

lemma body_fan_out_stable:
  assumes "stable V" and "validateEmailFormat V e"
    and "fst (checkDomainExists V (domain_of e) (world s))"
  shows "fst (validateEmails_body V ks e s) =
           \<lparr>email = e, formatValid = True, domainExists = True,
             mxRecords = fst (checkMXRecords V (domain_of e) w),
             spf = fst (checkSPF V (domain_of e) w),
             dkim = fst (checkDKIM V (domain_of e) w),
             dmarc = fst (checkDMARC V (domain_of e) w),
             smtp = fst (checkSMTP V (domain_of e) w),
             blacklisted = fst (checkBlacklists V (domain_of e) w)\<rparr>"
proof -
  define d where "d = domain_of e"
  obtain w1 where dw: "checkDomainExists V d (world s) = (True, w1)"
    using assms(3) unfolding d_def by (cases "checkDomainExists V (domain_of e) (world s)") simp
  define s1 where "s1 = \<lparr>world = w1, calls = calls s @ [(DomainExists, d, True)]\<rparr>"
  define tasks where "tasks = [invoke V MXRecords d, invoke V SPF d,
      invoke V DKIM d, invoke V DMARC d, invoke V SMTP d, invoke V Blacklists d]"
  obtain rs s2 where pa: "promise_all ks tasks s1 = (rs, s2)"
    by (cases "promise_all ks tasks s1")
  have rs: "rs = [fst (checkMXRecords V d w), fst (checkSPF V d w), fst (checkDKIM V d w),
               fst (checkDMARC V d w), fst (checkSMTP V d w), fst (checkBlacklists V d w)]"
    using fan_out_stable [OF assms(1) pa [unfolded tasks_def]] .
  have "invoke V DomainExists d s = (True, s1)"
    using dw by (simp add: invoke_def s1_def)
  then have "fst (validateEmails_body V ks e s) =
          \<lparr>email = e, formatValid = True, domainExists = True, mxRecords = rs ! 0,
            spf = rs ! 1, dkim = rs ! 2, dmarc = rs ! 3, smtp = rs ! 4,
            blacklisted = rs ! 5\<rparr>"
    using assms(2) pa by (simp add: validateEmails_body_def d_def [symmetric] tasks_def)
  then show ?thesis
    unfolding rs d_def [symmetric] by simp
qed

section \<open>The batch\<close>

lemma loop_emails:
  "map email (fst (validateEmails_loop V sch es acc s)) = map email acc @ es"
proof (induction es arbitrary: sch acc s)
  case Nil
  show ?case by simp
next
  case (Cons e es)
  obtain r s' where b: "validateEmails_body V (case sch of [] \<Rightarrow> [] | ks # _ \<Rightarrow> ks) e s = (r, s')"
    by (cases "validateEmails_body V (case sch of [] \<Rightarrow> [] | ks # _ \<Rightarrow> ks) e s")
  then have "email r = e"
    using body_email [of V "case sch of [] \<Rightarrow> [] | ks # _ \<Rightarrow> ks" e s] by simp
  with b show ?case
    by (simp add: Cons.IH)
qed

lemma loop_all:
  assumes "\<forall>r \<in> set acc. P r"
    and "\<And>ks e s. P (fst (validateEmails_body V ks e s))"
  shows "\<forall>r \<in> set (fst (validateEmails_loop V sch es acc s)). P r"
  using assms(1)
proof (induction es arbitrary: sch acc s)
  case Nil
  then show ?case by simp
next
  case (Cons e es)
  obtain r s' where b: "validateEmails_body V (case sch of [] \<Rightarrow> [] | ks # _ \<Rightarrow> ks) e s = (r, s')"
    by (cases "validateEmails_body V (case sch of [] \<Rightarrow> [] | ks # _ \<Rightarrow> ks) e s")
  then have "P r"
    using assms(2) [of "case sch of [] \<Rightarrow> [] | ks # _ \<Rightarrow> ks" e s] by simp
  with Cons.prems have "\<forall>x \<in> set (acc @ [r]). P x"
    by simp
  then have "\<forall>x \<in> set (fst (validateEmails_loop V (tl sch) es (acc @ [r]) s')). P x"
    by (rule Cons.IH)
  with b show ?case by simp
qed

lemma loop_stable:
  assumes "stable V"
  shows "fst (validateEmails_loop V sch es acc s) = fst (validateEmails_loop V sch' es acc s')"
proof (induction es arbitrary: sch sch' acc s s')
  case Nil
  show ?case by simp
next
  case (Cons e es)
  obtain r s1 where b: "validateEmails_body V (case sch of [] \<Rightarrow> [] | ks # _ \<Rightarrow> ks) e s = (r, s1)"
    by (cases "validateEmails_body V (case sch of [] \<Rightarrow> [] | ks # _ \<Rightarrow> ks) e s")
  obtain r' s1' where b': "validateEmails_body V (case sch' of [] \<Rightarrow> [] | ks # _ \<Rightarrow> ks) e s' = (r', s1')"
    by (cases "validateEmails_body V (case sch' of [] \<Rightarrow> [] | ks # _ \<Rightarrow> ks) e s'")
  have "r' = r"
    using body_stable [OF assms, of "case sch of [] \<Rightarrow> [] | ks # _ \<Rightarrow> ks" e s
        "case sch' of [] \<Rightarrow> [] | ks # _ \<Rightarrow> ks" s'] b b'
    by simp
  with b b' show ?case
    using Cons.IH [of "tl sch" "acc @ [r]" s1 "tl sch'" s1'] by simp
qed

lemma loop_keeps:
  "\<exists>rs log. fst (validateEmails_loop V sch es acc s) = acc @ rs \<and>
            calls (snd (validateEmails_loop V sch es acc s)) = calls s @ log"
proof (induction es arbitrary: sch acc s)
  case Nil
  show ?case by simp
next
  case (Cons e es)
  obtain r s' where b: "validateEmails_body V (case sch of [] \<Rightarrow> [] | ks # _ \<Rightarrow> ks) e s = (r, s')"
    by (cases "validateEmails_body V (case sch of [] \<Rightarrow> [] | ks # _ \<Rightarrow> ks) e s")
  obtain log where l: "calls s' = calls s @ log"
    using body_log [of V "case sch of [] \<Rightarrow> [] | ks # _ \<Rightarrow> ks" e s] b by auto
  from Cons.IH [of "tl sch" "acc @ [r]" s'] obtain rs log'
    where "fst (validateEmails_loop V (tl sch) es (acc @ [r]) s') = (acc @ [r]) @ rs"
      and "calls (snd (validateEmails_loop V (tl sch) es (acc @ [r]) s')) = calls s' @ log'"
    by blast
  with b l show ?case by simp
qed

lemma loop_line:
  assumes "l \<in> set es"
  shows "\<exists>r \<in> set (fst (validateEmails_loop V sch es acc s)).
           email r = l \<and> formatValid r = validateEmailFormat V l \<and>
           (formatValid r \<longrightarrow>
              (\<exists>b. (DomainExists, domain_of l, b) \<in> set (calls (snd (validateEmails_loop V sch es acc s)))))"
  using assms
proof (induction es arbitrary: sch acc s)
  case Nil
  then show ?case by simp
next
  case (Cons e es)
  define ks where "ks = (case sch of [] \<Rightarrow> [] | ks # _ \<Rightarrow> ks)"
  obtain r s' where b: "validateEmails_body V ks e s = (r, s')"
    by (cases "validateEmails_body V ks e s")
  have step: "validateEmails_loop V sch (e # es) acc s =
              validateEmails_loop V (tl sch) es (acc @ [r]) s'"
    using b by (simp add: ks_def)
  show ?case
  proof (cases "l \<in> set es")
    case True
    from Cons.IH [OF True, of "tl sch" "acc @ [r]" s'] show ?thesis
      unfolding step .
  next
    case False
    with Cons.prems have le: "l = e" by simp
    obtain rs log' where keep: "fst (validateEmails_loop V (tl sch) es (acc @ [r]) s') = (acc @ [r]) @ rs"
      and grow: "calls (snd (validateEmails_loop V (tl sch) es (acc @ [r]) s')) = calls s' @ log'"
      using loop_keeps [of V "tl sch" es "acc @ [r]" s'] by blast
    have mem: "r \<in> set (fst (validateEmails_loop V (tl sch) es (acc @ [r]) s'))"
      unfolding keep by simp
    have em: "email r = l" and fv: "formatValid r = validateEmailFormat V l"
      using body_email [of V ks e s] body_formatValid [of V ks e s] b le by simp_all
    have "\<exists>b. (DomainExists, domain_of l, b) \<in> set (calls s')" if "formatValid r"
    proof -
      from that fv le have "validateEmailFormat V e" by simp
      then obtain b0 rest log where "calls s' = calls s @ log"
        and "log = (DomainExists, domain_of e, b0) # rest"
        using body_log [of V ks e s] b by auto
      then show ?thesis using le by auto
    qed
    then have "formatValid r \<longrightarrow> (\<exists>b. (DomainExists, domain_of l, b) \<in>
        set (calls (snd (validateEmails_loop V (tl sch) es (acc @ [r]) s'))))"
      unfolding grow by auto
    with mem em fv show ?thesis
      unfolding step by blast
  qed
qed

lemma validateEmails_results:
  "results (fst (validateEmails V sch c s)) =
     fst (validateEmails_loop V sch (filter (\<lambda>l. \<not> blank l) (js_split newline (emails c))) [] s)"
  by (simp add: validateEmails_def truthy_trim split: prod.splits)

lemma validateEmails_calls:
  "calls (snd (validateEmails V sch c s)) =
     calls (snd (validateEmails_loop V sch
       (filter (\<lambda>l. \<not> blank l) (js_split newline (emails c))) [] s))"
  by (simp add: validateEmails_def truthy_trim split: prod.splits)

lemma format_contract_strict: "format_contract strict_validators"
  by (simp add: format_contract_def strict_validators_def)

lemma stable_stub: "stable stub_validators"
  unfolding stable_def
proof (intro allI)
  fix p d and w w' :: nat
  show "fst (probe_fn stub_validators p d w) = fst (probe_fn stub_validators p d w')"
    by (cases p) (simp_all add: stub_validators_def)
qed

section \<open>The claims\<close>

text \<open>
  C1. For an address that the format check accepts and whose domain exists, the six
  further checks (MX, SPF, DKIM, DMARC, SMTP, blacklist) are each called exactly once,
  with the domain of the address, after the one call of the existence check: the run
  is the six checks of \<open>V\<close> applied, in some order, to the world the existence check
  left, it leaves the world they leave, and each field of the result is what the check
  of that name resolved to in this run. This holds for every list of choices of the
  scheduler, that is, in whatever order the six calls settle; and when the checks are
  stable, each field is the value of its check at the domain, whatever the order.
\<close>

theorem fan_out_calls_each_check_once:
  assumes "validateEmailFormat V e"
    and "fst (checkDomainExists V (domain_of e) (world s))"
  shows "case validateEmails_body V ks e s of
           (r, s') \<Rightarrow>
             email r = e \<and> formatValid r \<and> domainExists r \<and>
             (\<exists>order. mset order = {#MXRecords, SPF, DKIM, DMARC, SMTP, Blacklists#} \<and>
                (case probe_run V (domain_of e) order
                        (snd (checkDomainExists V (domain_of e) (world s))) of
                   (cs, w') \<Rightarrow>
                     world s' = w' \<and>
                     calls s' = calls s @ (DomainExists, domain_of e, True) # cs \<and>
                     mset cs =
                       {#(MXRecords, domain_of e, mxRecords r), (SPF, domain_of e, spf r),
                         (DKIM, domain_of e, dkim r), (DMARC, domain_of e, dmarc r),
                         (SMTP, domain_of e, smtp r),
                         (Blacklists, domain_of e, blacklisted r)#})) \<and>
             (stable V \<longrightarrow>
                mxRecords r = fst (checkMXRecords V (domain_of e) w) \<and>
                spf r = fst (checkSPF V (domain_of e) w) \<and>
                dkim r = fst (checkDKIM V (domain_of e) w) \<and>
                dmarc r = fst (checkDMARC V (domain_of e) w) \<and>
                smtp r = fst (checkSMTP V (domain_of e) w) \<and>
                blacklisted r = fst (checkBlacklists V (domain_of e) w))"
proof -
  obtain r s' where b: "validateEmails_body V ks e s = (r, s')"
    by (cases "validateEmails_body V ks e s")
  note bp = body_pinned [OF assms(1) b]
  note a1 = bp [THEN conjunct1]
  note a2 = bp [THEN conjunct2, THEN conjunct1]
  note de = bp [THEN conjunct2, THEN conjunct2, THEN conjunct1]
  note ex = bp [THEN conjunct2, THEN conjunct2, THEN conjunct2]
  from de assms(2) have yd: "domainExists r" by simp
  from ex have pin: "\<exists>order. mset order = {#MXRecords, SPF, DKIM, DMARC, SMTP, Blacklists#} \<and>
                (case probe_run V (domain_of e) order
                        (snd (checkDomainExists V (domain_of e) (world s))) of
                   (cs, w') \<Rightarrow>
                     world s' = w' \<and>
                     calls s' = calls s @ (DomainExists, domain_of e, True) # cs \<and>
                     mset cs =
                       {#(MXRecords, domain_of e, mxRecords r), (SPF, domain_of e, spf r),
                         (DKIM, domain_of e, dkim r), (DMARC, domain_of e, dmarc r),
                         (SMTP, domain_of e, smtp r),
                         (Blacklists, domain_of e, blacklisted r)#})"
    by (simp only: yd if_True simp_thms)
  have st: "stable V \<longrightarrow>
                mxRecords r = fst (checkMXRecords V (domain_of e) w) \<and>
                spf r = fst (checkSPF V (domain_of e) w) \<and>
                dkim r = fst (checkDKIM V (domain_of e) w) \<and>
                dmarc r = fst (checkDMARC V (domain_of e) w) \<and>
                smtp r = fst (checkSMTP V (domain_of e) w) \<and>
                blacklisted r = fst (checkBlacklists V (domain_of e) w)"
  proof
    assume "stable V"
    from body_fan_out_stable [OF this assms, of ks w] b
    show "mxRecords r = fst (checkMXRecords V (domain_of e) w) \<and>
                spf r = fst (checkSPF V (domain_of e) w) \<and>
                dkim r = fst (checkDKIM V (domain_of e) w) \<and>
                dmarc r = fst (checkDMARC V (domain_of e) w) \<and>
                smtp r = fst (checkSMTP V (domain_of e) w) \<and>
                blacklisted r = fst (checkBlacklists V (domain_of e) w)"
      by simp
  qed
  from a1 a2 yd pin st show ?thesis
    unfolding b prod.case by (intro conjI)
qed

theorem fan_out_calls_each_check_once_witness:
  "validateEmailFormat flaky_validators (utf16 ''u@example.com'') \<and>
   fst (checkDomainExists flaky_validators (domain_of (utf16 ''u@example.com'')) (world net0)) \<and>
   smtp (fst (validateEmails_body flaky_validators [0, 3] (utf16 ''u@example.com'') net0)) \<and>
   \<not> smtp (fst (validateEmails_body flaky_validators [] (utf16 ''u@example.com'') net0)) \<and>
   world (snd (validateEmails_body flaky_validators [0, 3] (utf16 ''u@example.com'') net0)) = 7 \<and>
   (case validateEmails_body flaky_validators [0, 3] (utf16 ''u@example.com'') net0 of
      (r, s') \<Rightarrow>
        email r = utf16 ''u@example.com'' \<and> formatValid r \<and> domainExists r \<and>
        (\<exists>order. mset order = {#MXRecords, SPF, DKIM, DMARC, SMTP, Blacklists#} \<and>
           (case probe_run flaky_validators (domain_of (utf16 ''u@example.com'')) order
                   (snd (checkDomainExists flaky_validators
                           (domain_of (utf16 ''u@example.com'')) (world net0))) of
              (cs, w') \<Rightarrow>
                world s' = w' \<and>
                calls s' =
                  calls net0 @ (DomainExists, domain_of (utf16 ''u@example.com''), True) # cs \<and>
                mset cs =
                  {#(MXRecords, domain_of (utf16 ''u@example.com''), mxRecords r),
                    (SPF, domain_of (utf16 ''u@example.com''), spf r),
                    (DKIM, domain_of (utf16 ''u@example.com''), dkim r),
                    (DMARC, domain_of (utf16 ''u@example.com''), dmarc r),
                    (SMTP, domain_of (utf16 ''u@example.com''), smtp r),
                    (Blacklists, domain_of (utf16 ''u@example.com''), blacklisted r)#}))) \<and>
   stable stub_validators \<and>
   validateEmailFormat stub_validators (utf16 ''u@example.com'') \<and>
   fst (checkDomainExists stub_validators (domain_of (utf16 ''u@example.com'')) (world net0)) \<and>
   fst (validateEmails_body stub_validators [5, 4, 3, 2, 1] (utf16 ''u@example.com'') net0) =
     \<lparr>email = utf16 ''u@example.com'', formatValid = True, domainExists = True,
       mxRecords = True, spf = False, dkim = True, dmarc = False, smtp = True,
       blacklisted = False\<rparr> \<and>
   (case validateEmails_body stub_validators [5, 4, 3, 2, 1] (utf16 ''u@example.com'') net0 of
      (r, s') \<Rightarrow>
        mxRecords r = fst (checkMXRecords stub_validators (domain_of (utf16 ''u@example.com'')) 0) \<and>
        spf r = fst (checkSPF stub_validators (domain_of (utf16 ''u@example.com'')) 0) \<and>
        dkim r = fst (checkDKIM stub_validators (domain_of (utf16 ''u@example.com'')) 0) \<and>
        dmarc r = fst (checkDMARC stub_validators (domain_of (utf16 ''u@example.com'')) 0) \<and>
        smtp r = fst (checkSMTP stub_validators (domain_of (utf16 ''u@example.com'')) 0) \<and>
        blacklisted r =
          fst (checkBlacklists stub_validators (domain_of (utf16 ''u@example.com'')) 0))"
proof -
  have f: "validateEmailFormat flaky_validators (utf16 ''u@example.com'')"
    by code_simp
  have d: "fst (checkDomainExists flaky_validators (domain_of (utf16 ''u@example.com''))
                  (world net0))"
    by code_simp
  have a: "smtp (fst (validateEmails_body flaky_validators [0, 3] (utf16 ''u@example.com'') net0))"
    by code_simp
  have b: "\<not> smtp (fst (validateEmails_body flaky_validators [] (utf16 ''u@example.com'') net0))"
    by code_simp
  have w: "world (snd (validateEmails_body flaky_validators [0, 3] (utf16 ''u@example.com'') net0)) = 7"
    by code_simp
  have f': "validateEmailFormat stub_validators (utf16 ''u@example.com'')"
    by code_simp
  have d': "fst (checkDomainExists stub_validators (domain_of (utf16 ''u@example.com''))
                  (world net0))"
    by code_simp
  have r': "fst (validateEmails_body stub_validators [5, 4, 3, 2, 1] (utf16 ''u@example.com'') net0) =
     \<lparr>email = utf16 ''u@example.com'', formatValid = True, domainExists = True,
       mxRecords = True, spf = False, dkim = True, dmarc = False, smtp = True,
       blacklisted = False\<rparr>"
    by code_simp
  obtain r1 s1 where b1: "validateEmails_body flaky_validators [0, 3] (utf16 ''u@example.com'') net0 = (r1, s1)"
    by (cases "validateEmails_body flaky_validators [0, 3] (utf16 ''u@example.com'') net0")
  obtain r2 s2 where b2: "validateEmails_body stub_validators [5, 4, 3, 2, 1] (utf16 ''u@example.com'') net0 = (r2, s2)"
    by (cases "validateEmails_body stub_validators [5, 4, 3, 2, 1] (utf16 ''u@example.com'') net0")
  note t1 = fan_out_calls_each_check_once [OF f d, where ks = "[0, 3]" and w = 0, unfolded b1 prod.case]
  note t2 = fan_out_calls_each_check_once [OF f' d', where ks = "[5, 4, 3, 2, 1]" and w = 0, unfolded b2 prod.case]
  have st: "mxRecords r2 = fst (checkMXRecords stub_validators (domain_of (utf16 ''u@example.com'')) 0) \<and>
        spf r2 = fst (checkSPF stub_validators (domain_of (utf16 ''u@example.com'')) 0) \<and>
        dkim r2 = fst (checkDKIM stub_validators (domain_of (utf16 ''u@example.com'')) 0) \<and>
        dmarc r2 = fst (checkDMARC stub_validators (domain_of (utf16 ''u@example.com'')) 0) \<and>
        smtp r2 = fst (checkSMTP stub_validators (domain_of (utf16 ''u@example.com'')) 0) \<and>
        blacklisted r2 =
          fst (checkBlacklists stub_validators (domain_of (utf16 ''u@example.com'')) 0)"
    using t2 [THEN conjunct2, THEN conjunct2, THEN conjunct2, THEN conjunct2] stable_stub
    by (rule mp)
  note p1 = t1 [THEN conjunct1]
  note p2 = t1 [THEN conjunct2, THEN conjunct1]
  note p3 = t1 [THEN conjunct2, THEN conjunct2, THEN conjunct1]
  note p4 = t1 [THEN conjunct2, THEN conjunct2, THEN conjunct2, THEN conjunct1]
  note q1 = st [THEN conjunct1]
  note q2 = st [THEN conjunct2, THEN conjunct1]
  note q3 = st [THEN conjunct2, THEN conjunct2, THEN conjunct1]
  note q4 = st [THEN conjunct2, THEN conjunct2, THEN conjunct2, THEN conjunct1]
  note q5 = st [THEN conjunct2, THEN conjunct2, THEN conjunct2, THEN conjunct2, THEN conjunct1]
  note q6 = st [THEN conjunct2, THEN conjunct2, THEN conjunct2, THEN conjunct2, THEN conjunct2]
  from f d a b w p1 p2 p3 p4 stable_stub f' d' r' q1 q2 q3 q4 q5 q6 show ?thesis
    unfolding b1 b2 prod.case by (intro conjI)
qed



text \<open>
  C3. For an address that the format check rejects, the result has \<open>formatValid\<close> false
  and the seven other boolean fields false, and the network state is returned as it
  was: no check is called, the existence check included.
\<close>

theorem rejected_address_makes_no_call:
  assumes "\<not> validateEmailFormat V e"
  shows "validateEmails_body V ks e s =
           (\<lparr>email = e, formatValid = False, domainExists = False, mxRecords = False,
             spf = False, dkim = False, dmarc = False, smtp = False,
             blacklisted = False\<rparr>, s)"
  using assms by (rule body_format_invalid)

theorem rejected_address_makes_no_call_witness:
  "\<not> validateEmailFormat stub_validators (utf16 ''bad-address'') \<and>
   validateEmails_body stub_validators [] (utf16 ''bad-address'') net0 =
     (\<lparr>email = utf16 ''bad-address'', formatValid = False, domainExists = False,
       mxRecords = False, spf = False, dkim = False, dmarc = False, smtp = False,
       blacklisted = False\<rparr>, net0)"
proof -
  have f: "\<not> validateEmailFormat stub_validators (utf16 ''bad-address'')"
    by code_simp
  from rejected_address_makes_no_call [OF f, of "[]" net0] f show ?thesis
    by simp
qed

text \<open>
  C4. In every result of every batch, if \<open>formatValid\<close> or \<open>domainExists\<close> is false then
  \<open>mxRecords\<close>, \<open>spf\<close>, \<open>dkim\<close>, \<open>dmarc\<close>, \<open>smtp\<close> and \<open>blacklisted\<close> are all false,
  whatever the injected checks do and whatever the state of the world.
\<close>

theorem unchecked_fields_stay_false:
  "\<forall>r \<in> set (results (fst (validateEmails V sch c s))).
     \<not> formatValid r \<or> \<not> domainExists r \<longrightarrow>
       \<not> mxRecords r \<and> \<not> spf r \<and> \<not> dkim r \<and> \<not> dmarc r \<and> \<not> smtp r \<and> \<not> blacklisted r"
proof -
  define P where "P = (\<lambda>r :: ValidationResult. \<not> formatValid r \<or> \<not> domainExists r \<longrightarrow>
       \<not> mxRecords r \<and> \<not> spf r \<and> \<not> dkim r \<and> \<not> dmarc r \<and> \<not> smtp r \<and> \<not> blacklisted r)"
  have one: "P (fst (validateEmails_body V ks e s))" for ks e s
  proof (cases "\<not> formatValid (fst (validateEmails_body V ks e s)) \<or>
                \<not> domainExists (fst (validateEmails_body V ks e s))")
    case True
    from body_unchecked [OF True] show ?thesis
      unfolding P_def by simp
  next
    case False
    then show ?thesis
      unfolding P_def by simp
  qed
  have "\<forall>r \<in> set []. P r" by simp
  then have "\<forall>r \<in> set (fst (validateEmails_loop V sch
      (filter (\<lambda>l. \<not> blank l) (js_split newline (emails c))) [] s)). P r"
    using one by (rule loop_all)
  then show ?thesis
    unfolding P_def validateEmails_results .
qed

theorem unchecked_fields_stay_false_witness:
  "results (fst (validateEmails stub_validators [] three_lines net0)) ! 2 \<in>
     set (results (fst (validateEmails stub_validators [] three_lines net0))) \<and>
   formatValid (results (fst (validateEmails stub_validators [] three_lines net0)) ! 2) \<and>
   \<not> domainExists (results (fst (validateEmails stub_validators [] three_lines net0)) ! 2) \<and>
   \<not> mxRecords (results (fst (validateEmails stub_validators [] three_lines net0)) ! 2) \<and>
   \<not> spf (results (fst (validateEmails stub_validators [] three_lines net0)) ! 2) \<and>
   \<not> dkim (results (fst (validateEmails stub_validators [] three_lines net0)) ! 2) \<and>
   \<not> dmarc (results (fst (validateEmails stub_validators [] three_lines net0)) ! 2) \<and>
   \<not> smtp (results (fst (validateEmails stub_validators [] three_lines net0)) ! 2) \<and>
   \<not> blacklisted (results (fst (validateEmails stub_validators [] three_lines net0)) ! 2)"
proof -
  define r where "r = results (fst (validateEmails stub_validators [] three_lines net0)) ! 2"
  have n: "length (results (fst (validateEmails stub_validators [] three_lines net0))) = 3"
    by code_simp
  then have mem: "r \<in> set (results (fst (validateEmails stub_validators [] three_lines net0)))"
    unfolding r_def by simp
  have f: "formatValid r" unfolding r_def by code_simp
  have d: "\<not> domainExists r" unfolding r_def by code_simp
  from unchecked_fields_stay_false [of stub_validators "[]" three_lines net0] mem d
  have "\<not> mxRecords r \<and> \<not> spf r \<and> \<not> dkim r \<and> \<not> dmarc r \<and> \<not> smtp r \<and> \<not> blacklisted r"
    by blast
  with mem f d show ?thesis
    unfolding r_def by blast
qed

text \<open>
  C5. The batch has one result for each input line that is not blank, in the order of
  these lines, and the \<open>email\<close> field of the i-th result is the i-th such line.
\<close>

theorem one_result_per_nonblank_line:
  "map email (results (fst (validateEmails V sch c s))) =
     filter (\<lambda>l. \<not> blank l) (js_split newline (emails c))"
  by (simp add: validateEmails_results loop_emails)

theorem one_result_per_nonblank_line_witness:
  "js_split newline (emails with_blank_lines) =
     [utf16 ''a@example.com'', [], utf16 ''  '', utf16 ''b@example.com'', []] \<and>
   map email (results (fst (validateEmails stub_validators [] with_blank_lines net0))) =
     [utf16 ''a@example.com'', utf16 ''b@example.com'']"
proof -
  have l: "js_split newline (emails with_blank_lines) =
     [utf16 ''a@example.com'', [], utf16 ''  '', utf16 ''b@example.com'', []]"
    by code_simp
  have "filter (\<lambda>l. \<not> blank l)
          [utf16 ''a@example.com'', [], utf16 ''  '', utf16 ''b@example.com'', []] =
        [utf16 ''a@example.com'', utf16 ''b@example.com'']"
    by code_simp
  with one_result_per_nonblank_line [of stub_validators "[]" with_blank_lines net0] l
  show ?thesis by simp
qed

text \<open>
  C6. Under the contract of the format check (an accepted address has exactly one
  \<^verbatim>\<open>@\<close>), the domain passed to the checks is the substring of the address after its
  first \<^verbatim>\<open>@\<close>: for an accepted address the extracted domain is that substring, the
  existence check is applied to it, and so are the six further checks when the domain
  exists; for a rejected address no check is called. An address with no \<^verbatim>\<open>@\<close> has an
  undefined domain and is rejected by the format check. For any address with at most
  one \<^verbatim>\<open>@\<close>, the extracted domain is the substring after the first \<^verbatim>\<open>@\<close>.
\<close>

theorem checks_receive_text_after_first_at_sign:
  assumes "format_contract V"
  shows "(count_list e at_sign \<le> 1 \<longrightarrow> domain_of e = after_first at_sign e) \<and>
         (at_sign \<notin> set e \<longrightarrow> domain_of e = None \<and> \<not> validateEmailFormat V e) \<and>
         (case validateEmails_body V ks e s of
            (r, s') \<Rightarrow>
              if validateEmailFormat V e then
                domain_of e = after_first at_sign e \<and> after_first at_sign e \<noteq> None \<and>
                domainExists r = fst (checkDomainExists V (after_first at_sign e) (world s)) \<and>
                (\<exists>order.
                   (if domainExists r
                    then mset order = {#MXRecords, SPF, DKIM, DMARC, SMTP, Blacklists#}
                    else order = []) \<and>
                   (case probe_run V (after_first at_sign e) order
                           (snd (checkDomainExists V (after_first at_sign e) (world s))) of
                      (cs, w') \<Rightarrow>
                        world s' = w' \<and>
                        calls s' =
                          calls s @ (DomainExists, after_first at_sign e, domainExists r) # cs))
              else s' = s)"
proof (intro conjI impI)
  assume "count_list e at_sign \<le> 1"
  then show "domain_of e = after_first at_sign e"
    by (rule domain_of_one_at)
next
  assume "at_sign \<notin> set e"
  then show "domain_of e = None"
    by (simp add: domain_of_None)
next
  assume "at_sign \<notin> set e"
  then have "count_list e at_sign = 0"
    by (simp add: count_list_0_iff)
  with assms show "\<not> validateEmailFormat V e"
    unfolding format_contract_def by auto
next
  obtain r s' where b: "validateEmails_body V ks e s = (r, s')"
    by (cases "validateEmails_body V ks e s")
  show "case validateEmails_body V ks e s of
            (r, s') \<Rightarrow>
              if validateEmailFormat V e then
                domain_of e = after_first at_sign e \<and> after_first at_sign e \<noteq> None \<and>
                domainExists r = fst (checkDomainExists V (after_first at_sign e) (world s)) \<and>
                (\<exists>order.
                   (if domainExists r
                    then mset order = {#MXRecords, SPF, DKIM, DMARC, SMTP, Blacklists#}
                    else order = []) \<and>
                   (case probe_run V (after_first at_sign e) order
                           (snd (checkDomainExists V (after_first at_sign e) (world s))) of
                      (cs, w') \<Rightarrow>
                        world s' = w' \<and>
                        calls s' =
                          calls s @ (DomainExists, after_first at_sign e, domainExists r) # cs))
              else s' = s"
  proof (cases "validateEmailFormat V e")
    case False
    with b have "s' = s"
      by (simp add: body_format_invalid)
    then show ?thesis
      unfolding b prod.case if_not_P [OF False] .
  next
    case True
    with assms have "count_list e at_sign = 1"
      unfolding format_contract_def by blast
    from domain_of_exactly_one_at [OF this]
    have d: "domain_of e = after_first at_sign e" and n: "after_first at_sign e \<noteq> None"
      by (rule conjunct1, rule conjunct2)
    note p = body_pinned_calls [OF True b d]
    from d n p [THEN conjunct1] p [THEN conjunct2]
    have "domain_of e = after_first at_sign e \<and> after_first at_sign e \<noteq> None \<and>
                domainExists r = fst (checkDomainExists V (after_first at_sign e) (world s)) \<and>
                (\<exists>order.
                   (if domainExists r
                    then mset order = {#MXRecords, SPF, DKIM, DMARC, SMTP, Blacklists#}
                    else order = []) \<and>
                   (case probe_run V (after_first at_sign e) order
                           (snd (checkDomainExists V (after_first at_sign e) (world s))) of
                      (cs, w') \<Rightarrow>
                        world s' = w' \<and>
                        calls s' =
                          calls s @ (DomainExists, after_first at_sign e, domainExists r) # cs))"
      by (intro conjI)
    then show ?thesis
      unfolding b prod.case if_P [OF True] .
  qed
qed

theorem checks_receive_text_after_first_at_sign_witness:
  "format_contract strict_validators \<and>
   count_list (utf16 ''user@example.com'') at_sign \<le> 1 \<and>
   domain_of (utf16 ''user@example.com'') = after_first at_sign (utf16 ''user@example.com'') \<and>
   after_first at_sign (utf16 ''user@example.com'') = Some (utf16 ''example.com'') \<and>
   at_sign \<notin> set (utf16 ''bad-address'') \<and>
   domain_of (utf16 ''bad-address'') = None \<and>
   \<not> validateEmailFormat strict_validators (utf16 ''bad-address'') \<and>
   \<not> validateEmailFormat strict_validators (utf16 ''u@example.com@x'') \<and>
   snd (validateEmails_body strict_validators [] (utf16 ''u@example.com@x'') net0) = net0 \<and>
   validateEmailFormat strict_validators (utf16 ''user@example.com'') \<and>
   map (\<lambda>c. fst (snd c))
     (calls (snd (validateEmails_body strict_validators [] (utf16 ''user@example.com'') net0))) =
     replicate 7 (Some (utf16 ''example.com'')) \<and>
   (case validateEmails_body strict_validators [] (utf16 ''user@example.com'') net0 of
      (r, s') \<Rightarrow>
        if validateEmailFormat strict_validators (utf16 ''user@example.com'') then
          domain_of (utf16 ''user@example.com'') =
            after_first at_sign (utf16 ''user@example.com'') \<and>
          after_first at_sign (utf16 ''user@example.com'') \<noteq> None \<and>
          domainExists r =
            fst (checkDomainExists strict_validators
                   (after_first at_sign (utf16 ''user@example.com'')) (world net0)) \<and>
          (\<exists>order.
             (if domainExists r
              then mset order = {#MXRecords, SPF, DKIM, DMARC, SMTP, Blacklists#}
              else order = []) \<and>
             (case probe_run strict_validators
                     (after_first at_sign (utf16 ''user@example.com'')) order
                     (snd (checkDomainExists strict_validators
                             (after_first at_sign (utf16 ''user@example.com'')) (world net0))) of
                (cs, w') \<Rightarrow>
                  world s' = w' \<and>
                  calls s' =
                    calls net0 @
                    (DomainExists, after_first at_sign (utf16 ''user@example.com''),
                     domainExists r) # cs))
        else s' = net0)"
proof -
  have c: "count_list (utf16 ''user@example.com'') at_sign \<le> 1"
    by code_simp
  have v: "after_first at_sign (utf16 ''user@example.com'') = Some (utf16 ''example.com'')"
    by code_simp
  have a: "at_sign \<notin> set (utf16 ''bad-address'')"
    by code_simp
  have x: "\<not> validateEmailFormat strict_validators (utf16 ''u@example.com@x'')"
    by code_simp
  have y: "snd (validateEmails_body strict_validators [] (utf16 ''u@example.com@x'') net0) = net0"
    by code_simp
  have f: "validateEmailFormat strict_validators (utf16 ''user@example.com'')"
    by code_simp
  have m: "map (\<lambda>c. fst (snd c))
     (calls (snd (validateEmails_body strict_validators [] (utf16 ''user@example.com'') net0))) =
     replicate 7 (Some (utf16 ''example.com''))"
    by code_simp
  note t = checks_receive_text_after_first_at_sign [OF format_contract_strict,
      where e = "utf16 ''user@example.com''" and ks = "[]" and s = net0]
  note u = checks_receive_text_after_first_at_sign [OF format_contract_strict,
      where e = "utf16 ''bad-address''" and ks = "[]" and s = net0]
  note t1 = t [THEN conjunct1, THEN mp, OF c]
  note u2 = u [THEN conjunct2, THEN conjunct1, THEN mp, OF a]
  note t3 = t [THEN conjunct2, THEN conjunct2]
  from format_contract_strict c t1 v a u2 [THEN conjunct1] u2 [THEN conjunct2] x y f m t3
  show ?thesis
    by (intro conjI)
qed




text \<open>
  C8. With stable checks, two runs of the batch on the same input text give the same
  sequence of results, whatever the order in which the concurrent checks settle in
  either run and whatever the state of the world at the start of either run.
\<close>

theorem stable_checks_give_the_same_results:
  assumes "stable V" and "emails c' = emails c"
  shows "results (fst (validateEmails V sch' c' s')) = results (fst (validateEmails V sch c s))"
  unfolding validateEmails_results assms(2)
  by (rule loop_stable [OF assms(1)])

theorem stable_checks_give_the_same_results_witness:
  "stable stub_validators \<and>
   emails (fst (validateEmails stub_validators [] three_lines net0)) = emails three_lines \<and>
   results (fst (validateEmails stub_validators [[], [5, 4, 3, 2, 1]]
              (fst (validateEmails stub_validators [] three_lines net0))
              (snd (validateEmails stub_validators [] three_lines net0)))) =
   results (fst (validateEmails stub_validators [] three_lines net0))"
proof -
  have e: "emails (fst (validateEmails stub_validators [] three_lines net0)) = emails three_lines"
    by (simp add: validateEmails_def split: prod.splits)
  from stable_checks_give_the_same_results [OF stable_stub e] stable_stub e
  show ?thesis by blast
qed

text \<open>
  C9. The domain of an address is undefined exactly when the address has no \<^verbatim>\<open>@\<close>, and
  the pipeline does not guard against it: when the format check accepts such an
  address, the existence check of \<open>V\<close> is applied to the undefined domain, its answer is
  the \<open>domainExists\<close> field, and when it answers true the six further checks are
  applied to the undefined domain too.
\<close>

theorem no_at_sign_passes_undefined_domain:
  "(domain_of e = None \<longleftrightarrow> at_sign \<notin> set e) \<and>
   (at_sign \<notin> set e \<and> validateEmailFormat V e \<longrightarrow>
      (case validateEmails_body V ks e s of
         (r, s') \<Rightarrow>
           domainExists r = fst (checkDomainExists V None (world s)) \<and>
           (\<exists>order.
              (if domainExists r
               then mset order = {#MXRecords, SPF, DKIM, DMARC, SMTP, Blacklists#}
               else order = []) \<and>
              (case probe_run V None order (snd (checkDomainExists V None (world s))) of
                 (cs, w') \<Rightarrow>
                   world s' = w' \<and>
                   calls s' = calls s @ (DomainExists, None, domainExists r) # cs))))"
proof (intro conjI impI)
  show "domain_of e = None \<longleftrightarrow> at_sign \<notin> set e"
    by (rule domain_of_None)
next
  assume a: "at_sign \<notin> set e \<and> validateEmailFormat V e"
  then have d: "domain_of e = None"
    by (simp add: domain_of_None)
  obtain r s' where b: "validateEmails_body V ks e s = (r, s')"
    by (cases "validateEmails_body V ks e s")
  from body_pinned_calls [OF a [THEN conjunct2] b d]
  show "case validateEmails_body V ks e s of
         (r, s') \<Rightarrow>
           domainExists r = fst (checkDomainExists V None (world s)) \<and>
           (\<exists>order.
              (if domainExists r
               then mset order = {#MXRecords, SPF, DKIM, DMARC, SMTP, Blacklists#}
               else order = []) \<and>
              (case probe_run V None order (snd (checkDomainExists V None (world s))) of
                 (cs, w') \<Rightarrow>
                   world s' = w' \<and>
                   calls s' = calls s @ (DomainExists, None, domainExists r) # cs))"
    unfolding b prod.case .
qed

theorem no_at_sign_passes_undefined_domain_witness:
  "at_sign \<notin> set (utf16 ''bad-address'') \<and>
   validateEmailFormat lenient_validators (utf16 ''bad-address'') \<and>
   domain_of (utf16 ''bad-address'') = None \<and>
   validateEmails_body lenient_validators [] (utf16 ''bad-address'') net0 =
     (\<lparr>email = utf16 ''bad-address'', formatValid = True, domainExists = False,
       mxRecords = False, spf = False, dkim = False, dmarc = False, smtp = False,
       blacklisted = False\<rparr>,
      \<lparr>world = 1, calls = [(DomainExists, None, False)]\<rparr>) \<and>
   (case validateEmails_body lenient_validators [] (utf16 ''bad-address'') net0 of
      (r, s') \<Rightarrow>
        domainExists r = fst (checkDomainExists lenient_validators None (world net0)) \<and>
        (\<exists>order.
           (if domainExists r
            then mset order = {#MXRecords, SPF, DKIM, DMARC, SMTP, Blacklists#}
            else order = []) \<and>
           (case probe_run lenient_validators None order
                   (snd (checkDomainExists lenient_validators None (world net0))) of
              (cs, w') \<Rightarrow>
                world s' = w' \<and>
                calls s' = calls net0 @ (DomainExists, None, domainExists r) # cs)))"
proof -
  have a: "at_sign \<notin> set (utf16 ''bad-address'')"
    by code_simp
  have f: "validateEmailFormat lenient_validators (utf16 ''bad-address'')"
    by code_simp
  have v: "validateEmails_body lenient_validators [] (utf16 ''bad-address'') net0 =
     (\<lparr>email = utf16 ''bad-address'', formatValid = True, domainExists = False,
       mxRecords = False, spf = False, dkim = False, dmarc = False, smtp = False,
       blacklisted = False\<rparr>,
      \<lparr>world = 1, calls = [(DomainExists, None, False)]\<rparr>)"
    by code_simp
  note t = no_at_sign_passes_undefined_domain
    [where e = "utf16 ''bad-address''" and V = lenient_validators and ks = "[]" and s = net0]
  from a have d: "domain_of (utf16 ''bad-address'') = None"
    using t [THEN conjunct1] by (rule iffD2 [rotated])
  from a f have af: "at_sign \<notin> set (utf16 ''bad-address'') \<and>
      validateEmailFormat lenient_validators (utf16 ''bad-address'')"
    by (rule conjI)
  note c = t [THEN conjunct2, THEN mp, OF af]
  from a f d v c show ?thesis
    by (intro conjI)
qed

text \<open>
  C10. An input line that is not blank is kept as it is, white space included: some
  result has this very line as its \<open>email\<close>, its \<open>formatValid\<close> is the format check of
  the untrimmed line, and when the format is valid the existence check has been called
  with the domain taken from the untrimmed line.
\<close>

theorem kept_lines_are_not_trimmed:
  assumes "l \<in> set (js_split newline (emails c))" and "\<not> blank l"
  shows "\<exists>r \<in> set (results (fst (validateEmails V sch c s))).
           email r = l \<and> formatValid r = validateEmailFormat V l \<and>
           (formatValid r \<longrightarrow>
              (\<exists>b. (DomainExists, domain_of l, b) \<in> set (calls (snd (validateEmails V sch c s)))))"
proof -
  from assms have "l \<in> set (filter (\<lambda>l. \<not> blank l) (js_split newline (emails c)))"
    by simp
  then show ?thesis
    unfolding validateEmails_results validateEmails_calls by (rule loop_line)
qed

theorem kept_lines_are_not_trimmed_witness:
  "utf16 '' user@example.com '' \<in> set (js_split newline (emails padded_line)) \<and>
   \<not> blank (utf16 '' user@example.com '') \<and>
   domain_of (utf16 '' user@example.com '') = Some (utf16 ''example.com '') \<and>
   (\<exists>r \<in> set (results (fst (validateEmails stub_validators [] padded_line net0))).
      email r = utf16 '' user@example.com '' \<and>
      formatValid r = validateEmailFormat stub_validators (utf16 '' user@example.com '') \<and>
      formatValid r \<and>
      (\<exists>b. (DomainExists, Some (utf16 ''example.com ''), b) \<in>
             set (calls (snd (validateEmails stub_validators [] padded_line net0)))))"
proof -
  have m: "utf16 '' user@example.com '' \<in> set (js_split newline (emails padded_line))"
    by code_simp
  have b: "\<not> blank (utf16 '' user@example.com '')"
    by code_simp
  have d: "domain_of (utf16 '' user@example.com '') = Some (utf16 ''example.com '')"
    by code_simp
  have f: "validateEmailFormat stub_validators (utf16 '' user@example.com '')"
    by code_simp
  from kept_lines_are_not_trimmed [OF m b, of stub_validators "[]" net0] m b d f
  show ?thesis
    by auto
qed

end
